theory Spec2Isabelle
  imports Main "HOL-Library.Word" "HOL-Library.Monad_Syntax"
begin

unbundle bit_operations_syntax

section \<open>Data model\<close>

text \<open>
  The sketches run on an 8-bit AVR: \<open>byte\<close> is an unsigned 8-bit value, \<open>int\<close> has
  16 bits. Tables declared \<open>PROGMEM\<close> live in flash and are read with
  \<open>pgm_read_byte\<close> / \<open>memcpy_P\<close> at an address; a table is modelled by the contents
  of flash seen from its first byte, a function from the offset to the byte stored there.
  Arrays in RAM are lists; an access outside the array is undefined behaviour in C and is
  the value \<open>None\<close> here.
\<close>

type_synonym byte = "8 word"
type_synonym progmem = "nat \<Rightarrow> byte"

definition pgm_read_byte :: "progmem \<Rightarrow> nat \<Rightarrow> byte" where
  "pgm_read_byte tbl a = tbl a"

section \<open>DrawShiftedChar (oledMainDEMO.cpp)\<close>

text \<open>
  The body of \<open>for (z = 0; z < (8 - bXOff); z++)\<close>, run \<open>n\<close> more times: \<open>s1\<close>, \<open>s2\<close>
  are the two flash addresses and \<open>d\<close> the index into the row buffer, each advanced by
  one per iteration. \<open>c\<close> and \<open>c2\<close> are promoted to a 16-bit \<open>int\<close> for the shift, whose
  count must lie in \<open>0..15\<close>: \<open>8 - bYOff\<close> is negative for \<open>bYOff > 8\<close>, which is undefined.
  The assignment back to a \<open>byte\<close> keeps the low eight bits; a shift by 8 (\<open>bYOff = 0\<close>,
  which DrawPlayfield never passes) leaves none of them.
\<close>

fun DrawShiftedChar_loop ::
  "progmem \<Rightarrow> nat \<Rightarrow> nat \<Rightarrow> nat \<Rightarrow> byte \<Rightarrow> nat \<Rightarrow> byte list \<Rightarrow> byte list option" where
  "DrawShiftedChar_loop tbl s1 s2 d bYOff 0 buf = Some buf"
| "DrawShiftedChar_loop tbl s1 s2 d bYOff (Suc n) buf =
     (if 8 < unat bYOff then None
      else let c = drop_bit (unat bYOff) (pgm_read_byte tbl s1);
               c2 = push_bit (8 - unat bYOff) (pgm_read_byte tbl s2)
           in if d < length buf
              then DrawShiftedChar_loop tbl (s1 + 1) (s2 + 1) (d + 1) bYOff n (buf[d := c OR c2])
              else None)"

text \<open>
  \<open>z\<close> is a byte and \<open>8 - bXOff\<close> an \<open>int\<close>: for \<open>bXOff > 8\<close> the bound is negative and
  the loop body never runs, which is what the truncated subtraction on \<open>nat\<close> gives.
\<close>

definition DrawShiftedChar ::
  "progmem \<Rightarrow> nat \<Rightarrow> nat \<Rightarrow> nat \<Rightarrow> byte \<Rightarrow> byte \<Rightarrow> byte list \<Rightarrow> byte list option" where
  "DrawShiftedChar tbl s1 s2 d bXOff bYOff buf =
     DrawShiftedChar_loop tbl s1 s2 d bYOff (8 - unat bXOff) buf"


section \<open>DrawSprites (oledMainDEMO.cpp)\<close>

text \<open>
  \<open>GFX_OBJECT\<close>: the fields \<open>x\<close> and \<open>y\<close> of the struct are \<open>obj_x\<close> and \<open>obj_y\<close>
  here, \<open>bType\<close> keeps its name.
\<close>

record GFX_OBJECT =
  obj_x :: byte
  obj_y :: byte
  bType :: byte

text \<open>
  The five inner loops of DrawSprites share one shape: read a mask and a pattern from
  the glyph at \<open>s\<close>, transform them, then \<open>cOld = d[0]; cOld &= mask; cOld |= cNew;
  *d++ = cOld\<close>, with \<open>s++\<close>. \<open>blit_loop\<close> is that loop for \<open>n\<close> more columns; its first
  argument is what the branch computes for \<open>(mask, cNew)\<close> from the address \<open>s\<close>.
\<close>

fun blit_loop ::
  "(nat \<Rightarrow> byte \<times> byte) \<Rightarrow> nat \<Rightarrow> nat \<Rightarrow> nat \<Rightarrow> byte list \<Rightarrow> byte list option" where
  "blit_loop rd s d 0 pBuf = Some pBuf"
| "blit_loop rd s d (Suc n) pBuf =
     (if d < length pBuf
      then let cOld = pBuf ! d;
               cOld = cOld AND fst (rd s);
               cOld = cOld OR snd (rd s)
           in blit_loop rd (s + 1) (d + 1) n (pBuf[d := cOld])
      else None)"

text \<open>16x16, \<open>bYOff == 0\<close>: byte aligned, single source, not shifted.\<close>

definition sprite16_aligned :: "progmem \<Rightarrow> nat \<Rightarrow> byte \<times> byte" where
  "sprite16_aligned tbl s =
     (let mask = pgm_read_byte tbl s;
          cNew = pgm_read_byte tbl (s + 32)
      in (mask, cNew))"

text \<open>16x16, \<open>pObject->y + 8 < y\<close>: only the bottom half of the sprite is drawn.\<close>

definition sprite16_bottom :: "progmem \<Rightarrow> byte \<Rightarrow> nat \<Rightarrow> byte \<times> byte" where
  "sprite16_bottom tbl bYOff s =
     (let mask = pgm_read_byte tbl s;
          cNew = pgm_read_byte tbl (s + 32);
          mask = drop_bit (8 - unat bYOff) mask;
          mask = mask OR push_bit (unat bYOff) 0xff;
          cNew = drop_bit (8 - unat bYOff) cNew
      in (mask, cNew))"

text \<open>16x16, \<open>pObject->y > y\<close>: only the top half of the sprite is drawn.\<close>

definition sprite16_top :: "progmem \<Rightarrow> byte \<Rightarrow> nat \<Rightarrow> byte \<times> byte" where
  "sprite16_top tbl bYOff s =
     (let mask = pgm_read_byte tbl s;
          cNew = pgm_read_byte tbl (s + 32);
          mask = push_bit (unat bYOff) mask;
          mask = mask OR drop_bit (8 - unat bYOff) 0xff;
          cNew = push_bit (unat bYOff) cNew
      in (mask, cNew))"

text \<open>16x16, otherwise: part of top and bottom drawn together.\<close>

definition sprite16_both :: "progmem \<Rightarrow> byte \<Rightarrow> nat \<Rightarrow> byte \<times> byte" where
  "sprite16_both tbl bYOff s =
     (let mask = pgm_read_byte tbl s;
          mask2 = pgm_read_byte tbl (s + 16);
          cNew = pgm_read_byte tbl (s + 32);
          cNew2 = pgm_read_byte tbl (s + 48);
          mask = drop_bit (8 - unat bYOff) mask;
          cNew = drop_bit (8 - unat bYOff) cNew;
          mask2 = push_bit (unat bYOff) mask2;
          cNew2 = push_bit (unat bYOff) cNew2;
          mask = mask OR mask2;
          cNew = cNew OR cNew2
      in (mask, cNew))"

text \<open>8x8: \<open>below\<close> is the test \<open>pObject->y > y\<close>.\<close>

definition sprite8 :: "progmem \<Rightarrow> bool \<Rightarrow> byte \<Rightarrow> nat \<Rightarrow> byte \<times> byte" where
  "sprite8 tbl below bYOff s =
     (let mask = pgm_read_byte tbl s;
          cNew = pgm_read_byte tbl (s + 8)
      in if bYOff \<noteq> 0
         then if below
              then (push_bit (unat bYOff) mask OR drop_bit (8 - unat bYOff) 0xff,
                    push_bit (unat bYOff) cNew)
              else (drop_bit (8 - unat bYOff) mask OR push_bit (unat bYOff) 0xff,
                    drop_bit (8 - unat bYOff) cNew)
         else (mask, cNew))"

text \<open>
  The part of the loop body after the three visibility tests (``It's visible on this
  line; draw it''). The comparisons are on \<open>int\<close>, where the bytes are promoted and
  nothing wraps; \<open>bYOff = y & 7\<close> is at most 7, so every shift count is in range.
\<close>

definition DrawSprites_draw ::
  "progmem \<Rightarrow> progmem \<Rightarrow> byte \<Rightarrow> GFX_OBJECT \<Rightarrow> byte list \<Rightarrow> byte list option" where
  "DrawSprites_draw ucSprites ucBigSprites y pObject pBuf =
     (let bSprite = bType pObject;
          bSize = (if bSprite AND 0x80 \<noteq> 0 then 16 else 8 :: nat);
          bSprite = bSprite AND 0x7f;
          d = unat (obj_x pObject)
      in if bSize = 16
         then let s = unat bSprite * 64;
                  s = (if unat (obj_y pObject) + 8 \<le> unat y then s + 16 else s);
                  bYOff = obj_y pObject AND 7;
                  bWidth = (if 128 - unat (obj_x pObject) < 16
                            then 128 - unat (obj_x pObject) else 16)
              in if bYOff = 0
                 then blit_loop (sprite16_aligned ucBigSprites) s d bWidth pBuf
                 else if unat (obj_y pObject) + 8 < unat y
                 then blit_loop (sprite16_bottom ucBigSprites bYOff) s d bWidth pBuf
                 else if unat (obj_y pObject) > unat y
                 then blit_loop (sprite16_top ucBigSprites bYOff) s d bWidth pBuf
                 else blit_loop (sprite16_both ucBigSprites bYOff) s d bWidth pBuf
         else let s = unat bSprite * 16;
                  bYOff = obj_y pObject AND 7;
                  bWidth = (if 128 - unat (obj_x pObject) < 8
                            then 128 - unat (obj_x pObject) else 8)
              in blit_loop (sprite8 ucSprites (unat (obj_y pObject) > unat y) bYOff)
                   s d bWidth pBuf)"

text \<open>One pass of \<open>for (i = 0; i < bCount; i++)\<close>: each \<open>continue\<close> leaves the buffer.\<close>

definition DrawSprites_body ::
  "progmem \<Rightarrow> progmem \<Rightarrow> byte \<Rightarrow> GFX_OBJECT \<Rightarrow> byte list \<Rightarrow> byte list option" where
  "DrawSprites_body ucSprites ucBigSprites y pObject pBuf =
     (let bSprite = bType pObject;
          bSize = (if bSprite AND 0x80 \<noteq> 0 then 16 else 8 :: nat)
      in if unat (obj_y pObject) \<ge> unat y + 8 then Some pBuf
         else if unat (obj_y pObject) + bSize \<le> unat y then Some pBuf
         else if unat (obj_x pObject) \<ge> 128 then Some pBuf
         else DrawSprites_draw ucSprites ucBigSprites y pObject pBuf)"

text \<open>
  The loop over the sprites, \<open>n\<close> more to go from index \<open>i\<close>. Both arrays the function
  gets by pointer are threaded through and returned: \<open>pBuf\<close> and \<open>pList\<close>.
\<close>

fun DrawSprites_loop ::
  "progmem \<Rightarrow> progmem \<Rightarrow> byte \<Rightarrow> nat \<Rightarrow> nat \<Rightarrow> byte list \<Rightarrow> GFX_OBJECT list
     \<Rightarrow> (byte list \<times> GFX_OBJECT list) option" where
  "DrawSprites_loop ucSprites ucBigSprites y i 0 pBuf pList = Some (pBuf, pList)"
| "DrawSprites_loop ucSprites ucBigSprites y i (Suc n) pBuf pList =
     (if i < length pList
      then case DrawSprites_body ucSprites ucBigSprites y (pList ! i) pBuf of
             None \<Rightarrow> None
           | Some pBuf' \<Rightarrow> DrawSprites_loop ucSprites ucBigSprites y (i + 1) n pBuf' pList
      else None)"

definition DrawSprites ::
  "progmem \<Rightarrow> progmem \<Rightarrow> byte \<Rightarrow> byte list \<Rightarrow> GFX_OBJECT list \<Rightarrow> byte
     \<Rightarrow> (byte list \<times> GFX_OBJECT list) option" where
  "DrawSprites ucSprites ucBigSprites y pBuf pList bCount =
     DrawSprites_loop ucSprites ucBigSprites y 0 (unat bCount) pBuf pList"

text \<open>
  What one visible sprite does to the row buffer, read off the branches above: its
  first glyph address, the number of columns it covers and, for a glyph address, the mask
  and pattern it composites there.
\<close>

definition sprite_visible :: "byte \<Rightarrow> GFX_OBJECT \<Rightarrow> bool" where
  "sprite_visible y pObject \<longleftrightarrow>
     unat (obj_y pObject) < unat y + 8 \<and>
     unat (obj_y pObject) + (if bType pObject AND 0x80 \<noteq> 0 then 16 else 8) > unat y \<and>
     unat (obj_x pObject) < 128"

definition sprite_width :: "GFX_OBJECT \<Rightarrow> nat" where
  "sprite_width pObject =
     min (if bType pObject AND 0x80 \<noteq> 0 then 16 else 8) (128 - unat (obj_x pObject))"

definition sprite_source :: "byte \<Rightarrow> GFX_OBJECT \<Rightarrow> nat" where
  "sprite_source y pObject =
     (if bType pObject AND 0x80 \<noteq> 0
      then unat (bType pObject AND 0x7f) * 64 + (if unat (obj_y pObject) + 8 \<le> unat y then 16 else 0)
      else unat (bType pObject AND 0x7f) * 16)"

definition sprite_reader ::
  "progmem \<Rightarrow> progmem \<Rightarrow> byte \<Rightarrow> GFX_OBJECT \<Rightarrow> nat \<Rightarrow> byte \<times> byte" where
  "sprite_reader ucSprites ucBigSprites y pObject =
     (if bType pObject AND 0x80 \<noteq> 0
      then if obj_y pObject AND 7 = 0 then sprite16_aligned ucBigSprites
           else if unat (obj_y pObject) + 8 < unat y
           then sprite16_bottom ucBigSprites (obj_y pObject AND 7)
           else if unat (obj_y pObject) > unat y
           then sprite16_top ucBigSprites (obj_y pObject AND 7)
           else sprite16_both ucBigSprites (obj_y pObject AND 7)
      else sprite8 ucSprites (unat (obj_y pObject) > unat y) (obj_y pObject AND 7))"

text \<open>
  Whether a sprite covers column \<open>k\<close> of the row buffer on the page at \<open>y\<close>, and the mask
  and the pattern it composites there.
\<close>

definition sprite_covers :: "byte \<Rightarrow> nat \<Rightarrow> GFX_OBJECT \<Rightarrow> bool" where
  "sprite_covers y k pObject \<longleftrightarrow>
     sprite_visible y pObject \<and> unat (obj_x pObject) \<le> k \<and>
     k < unat (obj_x pObject) + sprite_width pObject"

definition sprite_mask :: "progmem \<Rightarrow> progmem \<Rightarrow> byte \<Rightarrow> nat \<Rightarrow> GFX_OBJECT \<Rightarrow> byte" where
  "sprite_mask ucSprites ucBigSprites y k pObject =
     fst (sprite_reader ucSprites ucBigSprites y pObject
            (sprite_source y pObject + (k - unat (obj_x pObject))))"

definition sprite_pattern :: "progmem \<Rightarrow> progmem \<Rightarrow> byte \<Rightarrow> nat \<Rightarrow> GFX_OBJECT \<Rightarrow> byte" where
  "sprite_pattern ucSprites ucBigSprites y k pObject =
     snd (sprite_reader ucSprites ucBigSprites y pObject
            (sprite_source y pObject + (k - unat (obj_x pObject))))"

text \<open>
  The byte at index \<open>k\<close> of the row buffer after one sprite, from the byte \<open>c\<close> before it:
  \<open>(c & mask) | pattern\<close> under a sprite that covers column \<open>k\<close>, else \<open>c\<close>.
\<close>

definition sprite_composite ::
  "progmem \<Rightarrow> progmem \<Rightarrow> byte \<Rightarrow> nat \<Rightarrow> byte \<Rightarrow> GFX_OBJECT \<Rightarrow> byte" where
  "sprite_composite ucSprites ucBigSprites y k c pObject =
     (if sprite_covers y k pObject
      then (c AND sprite_mask ucSprites ucBigSprites y k pObject)
           OR sprite_pattern ucSprites ucBigSprites y k pObject
      else c)"

section \<open>The globals and the display transport (oledMainDEMO.cpp)\<close>

text \<open>
  The globals of a sketch that the rendering routines can reach. The bit-banged bus is
  modelled by what it carries: \<open>bus\<close> holds one list of bytes per START..STOP
  transaction, the address byte first.
\<close>

record ram =
  bPlayfield :: "byte list"
  object_list :: "GFX_OBJECT list"
  iScrollX :: "16 word"
  iScrollY :: "16 word"
  iScreenOffset :: "16 word"
  bus :: "byte list list"

text \<open>
  \<open>I2CWrite(pData, iLen)\<close>: \<open>i2cBegin\<close> sends \<open>addr << 1\<close>, then \<open>i2cWrite\<close> takes the
  length as a \<open>byte\<close> and sends that many bytes of \<open>pData\<close>.
\<close>

definition I2CWrite :: "byte list \<Rightarrow> 16 word \<Rightarrow> ram \<Rightarrow> ram option" where
  "I2CWrite pData iLen st =
     (let bLen = unat (ucast iLen :: byte)
      in if bLen \<le> length pData
         then Some (st\<lparr>bus := bus st @ [push_bit 1 0x3C # take bLen pData]\<rparr>)
         else None)"

definition I2CWriteData :: "byte list \<Rightarrow> 16 word \<Rightarrow> ram \<Rightarrow> ram option" where
  "I2CWriteData pData iLen st =
     (let bLen = unat (ucast iLen :: byte)
      in if bLen \<le> length pData
         then Some (st\<lparr>bus := bus st @ [push_bit 1 0x3C # 0x40 # take bLen pData]\<rparr>)
         else None)"

definition oledWriteCommand :: "byte \<Rightarrow> ram \<Rightarrow> ram option" where
  "oledWriteCommand c st = I2CWrite [0x00, c] 2 st"

definition oledSetPosition :: "16 word \<Rightarrow> 16 word \<Rightarrow> ram \<Rightarrow> ram option" where
  "oledSetPosition xp yp st =
     do {
       st1 \<leftarrow> oledWriteCommand (ucast (0xb0 OR yp)) st;
       st2 \<leftarrow> oledWriteCommand (ucast (0x00 OR (xp AND 0xf))) st1;
       st3 \<leftarrow> oledWriteCommand (ucast (0x10 OR (signed_drop_bit 4 xp AND 0xf))) st2;
       Some (st3\<lparr>iScreenOffset := yp * 128 + xp\<rparr>)
     }"

section \<open>DrawPlayfield (oledMainDEMO.cpp, cuboRebotando.cpp)\<close>

text \<open>
  A \<open>for\<close> loop whose bound is fixed when it starts: the body, a step on what the loop
  carries, is run \<open>n\<close> times unless it fails.
\<close>

primrec loop_times :: "nat \<Rightarrow> ('s \<Rightarrow> 's option) \<Rightarrow> 's \<Rightarrow> 's option" where
  "loop_times 0 body s = Some s"
| "loop_times (Suc n) body s = (case body s of None \<Rightarrow> None | Some s' \<Rightarrow> loop_times n body s')"

text \<open>\<open>memcpy_P(d, s, n)\<close>: \<open>n\<close> bytes from flash address \<open>s\<close> to index \<open>d\<close> of a RAM array.\<close>

fun memcpy_P :: "byte list \<Rightarrow> nat \<Rightarrow> progmem \<Rightarrow> nat \<Rightarrow> nat \<Rightarrow> byte list option" where
  "memcpy_P buf d tbl s 0 = Some buf"
| "memcpy_P buf d tbl s (Suc n) =
     (if d < length buf
      then memcpy_P (buf[d := pgm_read_byte tbl s]) (d + 1) tbl (s + 1) n
      else None)"

text \<open>
  The branch \<open>if (bYOff)\<close>: the body of \<open>for (x = 0; x < 16; x++)\<close>. \<open>tx\<close>, \<open>bXOff\<close>, the
  cursor \<open>d\<close> (an index into \<open>bTemp\<close>) and \<open>bTemp\<close> are carried from cell to cell.
  \<open>iOffset\<close> is computed on \<open>int\<close>, where it cannot overflow.
\<close>

definition DrawPlayfield_shifted_cell ::
  "progmem \<Rightarrow> byte list \<Rightarrow> byte \<Rightarrow> byte \<Rightarrow> byte \<times> byte \<times> nat \<times> byte list
     \<Rightarrow> (byte \<times> byte \<times> nat \<times> byte list) option" where
  "DrawPlayfield_shifted_cell ucFont pf ty bYOff = (\<lambda>(tx, bXOff, d, bTemp).
     let tx = (if tx \<ge> 18 then tx - 18 else tx);
         iOffset = unat tx + unat ty * 18;
         iOffset2 = iOffset + 18;
         iOffset2 = (if iOffset2 \<ge> 180 then iOffset2 - 180 else iOffset2)
     in if iOffset < length pf \<and> iOffset2 < length pf
        then let c = pf ! iOffset;
                 s = unat c * 8 + unat bXOff;
                 c = pf ! iOffset2;
                 sNext = unat c * 8 + unat bXOff
             in case DrawShiftedChar ucFont s sNext d bXOff bYOff bTemp of
                  None \<Rightarrow> None
                | Some bTemp' \<Rightarrow> Some (tx + 1, 0, d + (8 - unat bXOff), bTemp')
        else None)"

text \<open>
  ``partial character left to draw'', shifted branch. \<open>&bTemp[SCREEN_WIDTH] - d\<close> is a
  pointer difference, cast to \<open>byte\<close>; \<open>8 - bXOff\<close> is passed as a \<open>byte\<close> argument.
\<close>

definition DrawPlayfield_shifted_partial ::
  "progmem \<Rightarrow> byte list \<Rightarrow> byte \<Rightarrow> byte \<Rightarrow> byte \<Rightarrow> byte \<Rightarrow> nat \<Rightarrow> byte list
     \<Rightarrow> (byte \<times> byte list) option" where
  "DrawPlayfield_shifted_partial ucFont pf ty bYOff tx bXOff d bTemp =
     (if d \<noteq> 128
      then let bXOff = (word_of_int (128 - int d) :: byte);
               tx = (if tx \<ge> 18 then tx - 18 else tx);
               iOffset = unat tx + unat ty * 18;
               iOffset2 = iOffset + 18;
               iOffset2 = (if iOffset2 \<ge> 180 then iOffset2 - 180 else iOffset2)
           in if iOffset < length pf \<and> iOffset2 < length pf
              then let c = pf ! iOffset;
                       s = unat c * 8;
                       c = pf ! iOffset2;
                       sNext = unat c * 8
                   in case DrawShiftedChar ucFont s sNext d (8 - bXOff) bYOff bTemp of
                        None \<Rightarrow> None
                      | Some bTemp' \<Rightarrow> Some (bXOff, bTemp')
              else None
      else Some (bXOff, bTemp))"

definition DrawPlayfield_shifted_row ::
  "progmem \<Rightarrow> byte list \<Rightarrow> byte \<Rightarrow> byte \<Rightarrow> byte \<Rightarrow> byte \<Rightarrow> byte list
     \<Rightarrow> (byte \<times> byte list) option" where
  "DrawPlayfield_shifted_row ucFont pf ty bYOff tx bXOff bTemp =
     (case loop_times 16 (DrawPlayfield_shifted_cell ucFont pf ty bYOff) (tx, bXOff, 0, bTemp) of
        None \<Rightarrow> None
      | Some (tx', bXOff', d, bTemp') \<Rightarrow>
          DrawPlayfield_shifted_partial ucFont pf ty bYOff tx' bXOff' d bTemp')"

text \<open>
  The branch for a vertical offset of 0. The length of \<open>memcpy_P\<close> is a \<open>size_t\<close>, 16
  bits without sign: the \<open>int\<close> \<open>8 - bXOff\<close> is converted to it.
\<close>

definition DrawPlayfield_copied_cell ::
  "progmem \<Rightarrow> byte list \<Rightarrow> byte \<Rightarrow> byte \<times> byte \<times> nat \<times> byte list
     \<Rightarrow> (byte \<times> byte \<times> nat \<times> byte list) option" where
  "DrawPlayfield_copied_cell ucFont pf ty = (\<lambda>(tx, bXOff, d, bTemp).
     let tx = (if tx \<ge> 18 then tx - 18 else tx);
         iOffset = unat tx + unat ty * 18
     in if iOffset < length pf
        then let c = pf ! iOffset;
                 s = unat c * 8 + unat bXOff
             in case memcpy_P bTemp d ucFont s (unat (8 - ucast bXOff :: 16 word)) of
                  None \<Rightarrow> None
                | Some bTemp' \<Rightarrow> Some (tx + 1, 0, d + (8 - unat bXOff), bTemp')
        else None)"

definition DrawPlayfield_copied_partial ::
  "progmem \<Rightarrow> byte list \<Rightarrow> byte \<Rightarrow> byte \<Rightarrow> byte \<Rightarrow> nat \<Rightarrow> byte list
     \<Rightarrow> (byte \<times> byte list) option" where
  "DrawPlayfield_copied_partial ucFont pf ty tx bXOff d bTemp =
     (if d \<noteq> 128
      then let bXOff = (word_of_int (128 - int d) :: byte);
               tx = (if tx \<ge> 18 then tx - 18 else tx);
               iOffset = unat tx + unat ty * 18
           in if iOffset < length pf
              then let c = pf ! iOffset;
                       s = unat c * 8
                   in case memcpy_P bTemp d ucFont s (unat bXOff) of
                        None \<Rightarrow> None
                      | Some bTemp' \<Rightarrow> Some (bXOff, bTemp')
              else None
      else Some (bXOff, bTemp))"

definition DrawPlayfield_copied_row ::
  "progmem \<Rightarrow> byte list \<Rightarrow> byte \<Rightarrow> byte \<Rightarrow> byte \<Rightarrow> byte list \<Rightarrow> (byte \<times> byte list) option" where
  "DrawPlayfield_copied_row ucFont pf ty tx bXOff bTemp =
     (case loop_times 16 (DrawPlayfield_copied_cell ucFont pf ty) (tx, bXOff, 0, bTemp) of
        None \<Rightarrow> None
      | Some (tx', bXOff', d, bTemp') \<Rightarrow>
          DrawPlayfield_copied_partial ucFont pf ty tx' bXOff' d bTemp')"

definition numberOfSprites :: byte where
  "numberOfSprites = 19"

text \<open>
  The body of \<open>for (y = 0; y < 8; y++)\<close>. \<open>y\<close>, \<open>ty\<close> and \<open>bXOff\<close> live across the pages;
  \<open>bTemp\<close> is cleared and \<open>tx\<close> set anew on each page.
\<close>

definition DrawPlayfield_page ::
  "progmem \<Rightarrow> progmem \<Rightarrow> progmem \<Rightarrow> byte \<Rightarrow> byte \<Rightarrow> byte \<times> byte \<times> byte \<times> ram
     \<Rightarrow> (byte \<times> byte \<times> byte \<times> ram) option" where
  "DrawPlayfield_page ucFont ucSprites ucBigSprites bScrollX bYOff = (\<lambda>(y, ty, bXOff, st).
     let bTemp = replicate 128 0;
         tx = drop_bit 3 bScrollX;
         ty = (if ty \<ge> 10 then ty - 10 else ty)
     in case (if bYOff \<noteq> 0
              then DrawPlayfield_shifted_row ucFont (bPlayfield st) ty bYOff tx bXOff bTemp
              else DrawPlayfield_copied_row ucFont (bPlayfield st) ty tx bXOff bTemp) of
          None \<Rightarrow> None
        | Some (bXOff', bTemp') \<Rightarrow>
            (case DrawSprites ucSprites ucBigSprites (y * 8) bTemp' (object_list st)
                    numberOfSprites of
               None \<Rightarrow> None
             | Some (bTemp'', pList') \<Rightarrow>
                 (case oledSetPosition 0 (ucast y) (st\<lparr>object_list := pList'\<rparr>) of
                    None \<Rightarrow> None
                  | Some st1 \<Rightarrow>
                      (case I2CWriteData bTemp'' 128 st1 of
                         None \<Rightarrow> None
                       | Some st2 \<Rightarrow> Some (y + 1, ty + 1, bXOff', st2)))))"

definition DrawPlayfield ::
  "progmem \<Rightarrow> progmem \<Rightarrow> progmem \<Rightarrow> byte \<Rightarrow> byte \<Rightarrow> ram \<Rightarrow> ram option" where
  "DrawPlayfield ucFont ucSprites ucBigSprites bScrollX bScrollY st =
     (let bXOff = bScrollX AND 7;
          bYOff = bScrollY AND 7;
          ty = drop_bit 3 bScrollY
      in case loop_times 8 (DrawPlayfield_page ucFont ucSprites ucBigSprites bScrollX bYOff)
                (0, ty, bXOff, st) of
           None \<Rightarrow> None
         | Some (y, ty', bXOff', st') \<Rightarrow> Some st')"

section \<open>DrawPlayfield with adjustPlayField (the scrolling-map sketch, part_001)\<close>

text \<open>
  This sketch has its own DrawPlayfield: \<open>ty\<close>, \<open>bXOff\<close> and \<open>bYOff\<close> are \<open>int\<close>s (never
  negative, natural numbers here), the playfield index is reduced modulo 180, both
  ``partial character'' blocks and the call of DrawSprites are commented out, and it
  starts by calling \<open>adjustPlayField()\<close>. DrawShiftedChar and the transport are the
  same code as above. \<open>tileMap\<close> is a \<open>PROGMEM\<close> array of rows of 18 bytes. \<open>bXOff\<close> is
  \<open>bScrollX & 7\<close> or 0, so \<open>MODULE - bXOff\<close> is the subtraction on \<open>nat\<close>.
\<close>

text \<open>The body of \<open>for (byte x1 = 0; x1 < PLAYFIELD_COLS; x1++)\<close> in adjustPlayField.\<close>

definition adjustPlayField_step ::
  "progmem \<Rightarrow> nat \<Rightarrow> nat \<Rightarrow> nat \<Rightarrow> nat \<Rightarrow> nat \<times> byte list \<Rightarrow> (nat \<times> byte list) option" where
  "adjustPlayField_step tileMap d1 cNextRow d2 cPrevRow = (\<lambda>(x1, pf).
     case memcpy_P pf (d1 + x1) tileMap (cNextRow * 18 + x1) 1 of
       None \<Rightarrow> None
     | Some pf' \<Rightarrow>
         (case memcpy_P pf' (d2 + x1) tileMap (cPrevRow * 18 + x1) 1 of
            None \<Rightarrow> None
          | Some pf'' \<Rightarrow> Some (x1 + 1, pf'')))"

text \<open>
  \<open>currentRow\<close> is a \<open>byte\<close> made from the global \<open>int iScrollY\<close>: \<open>>>\<close> on a signed
  \<open>int\<close> keeps the sign, the sum is cut to eight bits.
\<close>

definition adjustPlayField :: "progmem \<Rightarrow> ram \<Rightarrow> ram option" where
  "adjustPlayField tileMap st =
     (let currentRow = (ucast (signed_drop_bit 3 (iScrollY st) + 1) :: byte);
          playFieldLength = 10 * 18;
          nextPlayfieldBit = (unat currentRow + 8) * 18;
          cNextPlayfieldBit = nextPlayfieldBit mod playFieldLength;
          cNextRow = (unat currentRow + 8) mod 29;
          prevPlayfieldBit = unat currentRow * 18;
          cPrevPlayfieldBit = prevPlayfieldBit mod playFieldLength;
          cPrevRow = unat currentRow mod 29
      in case loop_times 18
                (adjustPlayField_step tileMap cNextPlayfieldBit cNextRow cPrevPlayfieldBit cPrevRow)
                (0, bPlayfield st) of
           None \<Rightarrow> None
         | Some (x1, pf) \<Rightarrow> Some (st\<lparr>bPlayfield := pf\<rparr>))"

definition DrawPlayfield_part001_shifted_cell ::
  "progmem \<Rightarrow> byte list \<Rightarrow> nat \<Rightarrow> nat \<Rightarrow> byte \<times> nat \<times> nat \<times> byte list
     \<Rightarrow> (byte \<times> nat \<times> nat \<times> byte list) option" where
  "DrawPlayfield_part001_shifted_cell ucTiles pf ty bYOff = (\<lambda>(tx, bXOff, d, bTemp).
     let tx = (if tx \<ge> 18 then tx - 18 else tx);
         iOffset = unat tx + ty * 18;
         iOffset2 = iOffset + 18;
         iOffset2 = (if iOffset2 \<ge> 10 * 18 then iOffset2 - 10 * 18 else iOffset2);
         cIndex = iOffset mod (10 * 18);
         cIndex2 = iOffset2 mod (10 * 18)
     in if cIndex < length pf \<and> cIndex2 < length pf
        then let c = pf ! cIndex;
                 s = unat c * 8 + bXOff;
                 c = pf ! cIndex2;
                 sNext = unat c * 8 + bXOff
             in case DrawShiftedChar ucTiles s sNext d (of_nat bXOff) (of_nat bYOff) bTemp of
                  None \<Rightarrow> None
                | Some bTemp' \<Rightarrow> Some (tx + 1, 0, d + (8 - bXOff), bTemp')
        else None)"

definition DrawPlayfield_part001_copied_cell ::
  "progmem \<Rightarrow> byte list \<Rightarrow> nat \<Rightarrow> byte \<times> nat \<times> nat \<times> byte list
     \<Rightarrow> (byte \<times> nat \<times> nat \<times> byte list) option" where
  "DrawPlayfield_part001_copied_cell ucTiles pf ty = (\<lambda>(tx, bXOff, d, bTemp).
     let tx = (if tx \<ge> 18 then tx - 18 else tx);
         iOffset = unat tx + ty * 18;
         cIndex = iOffset mod (10 * 18)
     in if cIndex < length pf
        then let c = pf ! cIndex;
                 s = unat c * 8 + bXOff
             in case memcpy_P bTemp d ucTiles s (8 - bXOff) of
                  None \<Rightarrow> None
                | Some bTemp' \<Rightarrow> Some (tx + 1, 0, d + (8 - bXOff), bTemp')
        else None)"

definition DrawPlayfield_part001_page ::
  "progmem \<Rightarrow> byte \<Rightarrow> nat \<Rightarrow> byte \<times> nat \<times> nat \<times> ram \<Rightarrow> (byte \<times> nat \<times> nat \<times> ram) option" where
  "DrawPlayfield_part001_page ucTiles bScrollX bYOff = (\<lambda>(y, ty, bXOff, st).
     let bTemp = replicate 128 0;
         ty = (if ty \<ge> 10 then ty - 10 else ty);
         tx = drop_bit 3 bScrollX + 1
     in case (if bYOff \<noteq> 0
              then loop_times 16 (DrawPlayfield_part001_shifted_cell ucTiles (bPlayfield st) ty bYOff)
                     (tx, bXOff, 0, bTemp)
              else loop_times 16 (DrawPlayfield_part001_copied_cell ucTiles (bPlayfield st) ty)
                     (tx, bXOff, 0, bTemp)) of
          None \<Rightarrow> None
        | Some (tx', bXOff', d, bTemp') \<Rightarrow>
            (case oledSetPosition 0 (ucast y) st of
               None \<Rightarrow> None
             | Some st1 \<Rightarrow>
                 (case I2CWriteData bTemp' 128 st1 of
                    None \<Rightarrow> None
                  | Some st2 \<Rightarrow> Some (y + 1, ty + 1, bXOff', st2))))"

definition DrawPlayfield_part001 ::
  "progmem \<Rightarrow> progmem \<Rightarrow> byte \<Rightarrow> byte \<Rightarrow> ram \<Rightarrow> ram option" where
  "DrawPlayfield_part001 ucTiles tileMap bScrollX bScrollY st =
     (let bXOff = unat (bScrollX AND 7);
          bYOff = unat (bScrollY AND 7);
          ty = unat (drop_bit 3 bScrollY) + 1
      in case adjustPlayField tileMap st of
           None \<Rightarrow> None
         | Some st' \<Rightarrow>
             (case loop_times 8 (DrawPlayfield_part001_page ucTiles bScrollX bYOff)
                     (0, ty, bXOff, st') of
                None \<Rightarrow> None
              | Some (y, ty', bXOff', st'') \<Rightarrow> Some st''))"

section \<open>The tables and the start states of the two sketches\<close>

text \<open>
  A table in flash. What follows its last byte is not in the source of the sketch
  (the linker decides it); the instances below read it as \<open>0xff\<close>, the value of erased
  flash. Every theorem below that is not about one of these instances holds for any
  contents of flash, and the instances read inside their tables only: sprite index 0
  (offsets below 16 and 64) and the tile codes 33..50 of the playfield \<open>setup()\<close> fills
  (font offsets below 408; see \<open>demo_state_font_reads\<close>).
\<close>

definition flash :: "byte list \<Rightarrow> progmem" where
  "flash xs a = (if a < length xs then xs ! a else 0xff)"

definition ucSprites_demo :: "byte list" where
  "ucSprites_demo =
     [0x7C, 0xF6, 0x66, 0xFF, 0x7F, 0xF6, 0x66, 0xFC,
      0x7C, 0xF6, 0x66, 0xFF, 0x7F, 0xF6, 0x66, 0xFC]"

definition ucBigSprites_demo :: "byte list" where
  "ucBigSprites_demo =
     [0xFF, 0xFF, 0x3E, 0x1C, 0x00, 0x00, 0x00, 0x00,
      0x00, 0x00, 0x00, 0x00, 0x00, 0x80, 0xFC, 0xFE,
      0xFF, 0xFF, 0x70, 0x20, 0x00, 0x00, 0x00, 0x00,
      0x00, 0x00, 0x00, 0x00, 0x00, 0x21, 0xE1, 0xFF,
      0x00, 0x00, 0x00, 0x80, 0x41, 0x8B, 0x17, 0x7B,
      0x6D, 0xCD, 0xCD, 0xFB, 0x2B, 0x01, 0x00, 0x00,
      0x00, 0x00, 0x00, 0x07, 0x8D, 0xC9, 0xAC, 0xAD,
      0x20, 0x0A, 0xE8, 0xA2, 0x88, 0x0C, 0x00, 0x00]"

text \<open>
  \<open>ucFont\<close> as the compiler sees it, 759 bytes: the row of \<open>SPACE\<close> has seven bytes, and
  the row of the backslash character ends in a \<open>//\<close> comment whose last character is a
  backslash, which joins the next line, the row of \<open>]\<close>, to that comment.
\<close>

definition ucFont_demo :: "byte list" where
  "ucFont_demo =
     [0x00, 0x00, 0x00, 0x00, 0x00, 0x00, 0x00, 0x00, 0x00, 0x06, 0x5F, 0x5F, 0x06, 0x00, 0x00, 0x00,
      0x07, 0x07, 0x00, 0x07, 0x07, 0x00, 0x00, 0x14, 0x7F, 0x7F, 0x14, 0x7F, 0x7F, 0x14, 0x00, 0x24,
      0x2E, 0x2A, 0x6B, 0x6B, 0x3A, 0x12, 0x00, 0x46, 0x66, 0x30, 0x18, 0x0C, 0x66, 0x62, 0x00, 0x30,
      0x7A, 0x4F, 0x5D, 0x37, 0x7A, 0x48, 0x00, 0x00, 0x04, 0x07, 0x03, 0x00, 0x00, 0x00, 0x00, 0x00,
      0x1C, 0x3E, 0x63, 0x41, 0x00, 0x00, 0x00, 0x00, 0x41, 0x63, 0x3E, 0x1C, 0x00, 0x00, 0x00, 0x08,
      0x2A, 0x3E, 0x1C, 0x1C, 0x3E, 0x2A, 0x08, 0x00, 0x08, 0x08, 0x3E, 0x3E, 0x08, 0x08, 0x00, 0x00,
      0x00, 0x80, 0xE0, 0x60, 0x00, 0x00, 0x00, 0x00, 0x08, 0x08, 0x08, 0x08, 0x08, 0x08, 0x00, 0x00,
      0x00, 0x00, 0x60, 0x60, 0x00, 0x00, 0x00, 0x60, 0x30, 0x18, 0x0C, 0x06, 0x03, 0x01, 0x00, 0x3E,
      0x7F, 0x59, 0x4D, 0x47, 0x7F, 0x3E, 0x00, 0x40, 0x42, 0x7F, 0x7F, 0x40, 0x40, 0x00, 0x00, 0x62,
      0x73, 0x59, 0x49, 0x6F, 0x66, 0x00, 0x00, 0x22, 0x63, 0x49, 0x49, 0x7F, 0x36, 0x00, 0x00, 0x18,
      0x1C, 0x16, 0x53, 0x7F, 0x7F, 0x50, 0x00, 0x27, 0x67, 0x45, 0x45, 0x7D, 0x39, 0x00, 0x00, 0x3C,
      0x7E, 0x4B, 0x49, 0x79, 0x30, 0x00, 0x00, 0x03, 0x03, 0x71, 0x79, 0x0F, 0x07, 0x00, 0x00, 0x36,
      0x7F, 0x49, 0x49, 0x7F, 0x36, 0x00, 0x00, 0x06, 0x4F, 0x49, 0x69, 0x3F, 0x1E, 0x00, 0x00, 0x00,
      0x00, 0x00, 0x66, 0x66, 0x00, 0x00, 0x00, 0x00, 0x00, 0x80, 0xE6, 0x66, 0x00, 0x00, 0x00, 0x08,
      0x1C, 0x36, 0x63, 0x41, 0x00, 0x00, 0x00, 0x00, 0x14, 0x14, 0x14, 0x14, 0x14, 0x14, 0x00, 0x00,
      0x41, 0x63, 0x36, 0x1C, 0x08, 0x00, 0x00, 0x00, 0x02, 0x03, 0x59, 0x5D, 0x07, 0x02, 0x00, 0x3E,
      0x7F, 0x41, 0x5D, 0x5D, 0x5F, 0x0E, 0x00, 0x7C, 0x7E, 0x13, 0x13, 0x7E, 0x7C, 0x00, 0x00, 0x41,
      0x7F, 0x7F, 0x49, 0x49, 0x7F, 0x36, 0x00, 0x1C, 0x3E, 0x63, 0x41, 0x41, 0x63, 0x22, 0x00, 0x41,
      0x7F, 0x7F, 0x41, 0x63, 0x3E, 0x1C, 0x00, 0x41, 0x7F, 0x7F, 0x49, 0x5D, 0x41, 0x63, 0x00, 0x41,
      0x7F, 0x7F, 0x49, 0x1D, 0x01, 0x03, 0x00, 0x1C, 0x3E, 0x63, 0x41, 0x51, 0x33, 0x72, 0x00, 0x7F,
      0x7F, 0x08, 0x08, 0x7F, 0x7F, 0x00, 0x00, 0x00, 0x41, 0x7F, 0x7F, 0x41, 0x00, 0x00, 0x00, 0x30,
      0x70, 0x40, 0x41, 0x7F, 0x3F, 0x01, 0x00, 0x41, 0x7F, 0x7F, 0x08, 0x1C, 0x77, 0x63, 0x00, 0x41,
      0x7F, 0x7F, 0x41, 0x40, 0x60, 0x70, 0x00, 0x7F, 0x7F, 0x0E, 0x1C, 0x0E, 0x7F, 0x7F, 0x00, 0x7F,
      0x7F, 0x06, 0x0C, 0x18, 0x7F, 0x7F, 0x00, 0x1C, 0x3E, 0x63, 0x41, 0x63, 0x3E, 0x1C, 0x00, 0x41,
      0x7F, 0x7F, 0x49, 0x09, 0x0F, 0x06, 0x00, 0x1E, 0x3F, 0x21, 0x31, 0x61, 0x7F, 0x5E, 0x00, 0x41,
      0x7F, 0x7F, 0x09, 0x19, 0x7F, 0x66, 0x00, 0x26, 0x6F, 0x4D, 0x49, 0x59, 0x73, 0x32, 0x00, 0x03,
      0x41, 0x7F, 0x7F, 0x41, 0x03, 0x00, 0x00, 0x7F, 0x7F, 0x40, 0x40, 0x7F, 0x7F, 0x00, 0x00, 0x1F,
      0x3F, 0x60, 0x60, 0x3F, 0x1F, 0x00, 0x00, 0x3F, 0x7F, 0x60, 0x30, 0x60, 0x7F, 0x3F, 0x00, 0x63,
      0x77, 0x1C, 0x08, 0x1C, 0x77, 0x63, 0x00, 0x07, 0x4F, 0x78, 0x78, 0x4F, 0x07, 0x00, 0x00, 0x47,
      0x63, 0x71, 0x59, 0x4D, 0x67, 0x73, 0x00, 0x00, 0x7F, 0x7F, 0x41, 0x41, 0x00, 0x00, 0x00, 0x01,
      0x03, 0x06, 0x0C, 0x18, 0x30, 0x60, 0x00, 0x08, 0x0C, 0x06, 0x03, 0x06, 0x0C, 0x08, 0x00, 0x80,
      0x80, 0x80, 0x80, 0x80, 0x80, 0x80, 0x80, 0x00, 0x00, 0x03, 0x07, 0x04, 0x00, 0x00, 0x00, 0x20,
      0x74, 0x54, 0x54, 0x3C, 0x78, 0x40, 0x00, 0x41, 0x7F, 0x3F, 0x48, 0x48, 0x78, 0x30, 0x00, 0x38,
      0x7C, 0x44, 0x44, 0x6C, 0x28, 0x00, 0x00, 0x30, 0x78, 0x48, 0x49, 0x3F, 0x7F, 0x40, 0x00, 0x38,
      0x7C, 0x54, 0x54, 0x5C, 0x18, 0x00, 0x00, 0x48, 0x7E, 0x7F, 0x49, 0x03, 0x06, 0x00, 0x00, 0x98,
      0xBC, 0xA4, 0xA4, 0xF8, 0x7C, 0x04, 0x00, 0x41, 0x7F, 0x7F, 0x08, 0x04, 0x7C, 0x78, 0x00, 0x00,
      0x44, 0x7D, 0x7D, 0x40, 0x00, 0x00, 0x00, 0x60, 0xE0, 0x80, 0x84, 0xFD, 0x7D, 0x00, 0x00, 0x41,
      0x7F, 0x7F, 0x10, 0x38, 0x6C, 0x44, 0x00, 0x00, 0x41, 0x7F, 0x7F, 0x40, 0x00, 0x00, 0x00, 0x7C,
      0x7C, 0x18, 0x78, 0x1C, 0x7C, 0x78, 0x00, 0x7C, 0x78, 0x04, 0x04, 0x7C, 0x78, 0x00, 0x00, 0x38,
      0x7C, 0x44, 0x44, 0x7C, 0x38, 0x00, 0x00, 0x84, 0xFC, 0xF8, 0xA4, 0x24, 0x3C, 0x18, 0x00, 0x18,
      0x3C, 0x24, 0xA4, 0xF8, 0xFC, 0x84, 0x00, 0x44, 0x7C, 0x78, 0x4C, 0x04, 0x0C, 0x18, 0x00, 0x48,
      0x5C, 0x54, 0x74, 0x64, 0x24, 0x00, 0x00, 0x04, 0x04, 0x3E, 0x7F, 0x44, 0x24, 0x00, 0x00, 0x3C,
      0x7C, 0x40, 0x40, 0x3C, 0x7C, 0x40, 0x00, 0x1C, 0x3C, 0x60, 0x60, 0x3C, 0x1C, 0x00, 0x00, 0x3C,
      0x7C, 0x60, 0x30, 0x60, 0x7C, 0x3C, 0x00, 0x44, 0x6C, 0x38, 0x10, 0x38, 0x6C, 0x44, 0x00, 0x9C,
      0xBC, 0xA0, 0xA0, 0xFC, 0x7C, 0x00, 0x00, 0x4C, 0x64, 0x74, 0x5C, 0x4C, 0x64, 0x00, 0x00, 0x08,
      0x08, 0x3E, 0x77, 0x41, 0x41, 0x00, 0x00, 0x00, 0x00, 0x00, 0x77, 0x77, 0x00, 0x00, 0x00, 0x41,
      0x41, 0x77, 0x3E, 0x08, 0x08, 0x00, 0x00, 0x02, 0x03, 0x01, 0x03, 0x02, 0x03, 0x01, 0x00, 0x70,
      0x78, 0x4C, 0x46, 0x4C, 0x78, 0x70, 0x00]"

definition ucTiles_part001 :: "byte list" where
  "ucTiles_part001 =
     [0x00, 0x00, 0x00, 0x00, 0x00, 0x00, 0x00, 0x00,
      0xAA, 0xC1, 0xE8, 0xD5, 0xE8, 0xD5, 0xBE, 0x7F,
      0xFF, 0xFF, 0xFF, 0xFF, 0xFF, 0xFF, 0xFF, 0xFF,
      0xFF, 0xFF, 0xFF, 0xFF, 0xFF, 0xFF, 0xFF, 0xFF,
      0x7F, 0x21, 0x7D, 0x3D, 0x7D, 0x3F, 0x55, 0x00,
      0x00, 0x14, 0x14, 0x14, 0x14, 0x14, 0x14, 0x00,
      0x60, 0x30, 0x18, 0x0C, 0x06, 0x03, 0x01, 0x00,
      0x01, 0x03, 0x06, 0x0C, 0x18, 0x30, 0x60, 0x00,
      0x54, 0x00, 0x05, 0x00, 0x51, 0xA8, 0xF1, 0x18,
      0x11, 0xA8, 0x51, 0xE0, 0x01, 0x04, 0x01, 0xFE,
      0xD5, 0x80, 0xA0, 0x80, 0x80, 0x80, 0x80, 0x8A,
      0xB5, 0xB7, 0x81, 0x81, 0x80, 0xA0, 0x80, 0xFF,
      0x6A, 0x81, 0x80, 0xB5, 0x8C, 0x81, 0xC0, 0xFF,
      0xAA, 0xC1, 0xE8, 0xD5, 0xE8, 0xD5, 0xBE, 0x7F,
      0x2C, 0x5E, 0xA6, 0xE0, 0xC0, 0x0C, 0xCC, 0xEE,
      0xAE, 0x0E, 0xE0, 0xEA, 0xEE, 0x0C, 0xE0, 0xEE,
      0xDE, 0x18, 0xC2, 0x9E, 0xDA, 0x74, 0x38, 0x00,
      0xAA, 0x5F, 0xAA, 0x5F, 0xAA, 0x5F, 0xAA, 0x5F,
      0x8A, 0x00, 0x2A, 0x00, 0x8A, 0x00, 0x2A, 0x00]"

definition tileMap_part001 :: "byte list" where
  "tileMap_part001 =
     [0, 1, 0, 0, 0, 0, 0, 0, 0, 0, 0, 0, 0, 0, 0, 0, 1, 0,
      0, 1, 1, 0, 0, 0, 0, 0, 0, 0, 0, 0, 0, 0, 0, 0, 1, 0,
      0, 1, 1, 1, 0, 0, 0, 0, 0, 0, 0, 0, 0, 0, 0, 0, 1, 0,
      0, 1, 1, 1, 1, 0, 0, 0, 0, 0, 0, 0, 0, 0, 0, 0, 1, 0,
      0, 1, 1, 1, 1, 1, 0, 0, 0, 0, 0, 0, 0, 0, 0, 0, 1, 0,
      0, 1, 1, 1, 1, 1, 1, 0, 0, 0, 0, 0, 0, 0, 0, 0, 1, 0,
      0, 1, 1, 1, 1, 1, 1, 1, 0, 0, 0, 0, 0, 0, 0, 0, 1, 0,
      0, 1, 1, 1, 1, 1, 1, 1, 1, 0, 0, 0, 0, 0, 0, 0, 1, 0,
      0, 1, 1, 1, 1, 1, 1, 1, 1, 1, 0, 0, 0, 0, 0, 0, 1, 0,
      0, 1, 1, 1, 1, 1, 1, 1, 1, 1, 1, 0, 0, 0, 0, 0, 1, 0,
      0, 1, 1, 1, 1, 1, 1, 1, 1, 1, 1, 1, 0, 0, 0, 0, 1, 0,
      0, 1, 1, 1, 1, 1, 1, 1, 1, 1, 1, 1, 1, 0, 0, 0, 1, 0,
      0, 1, 1, 1, 1, 1, 1, 1, 1, 1, 1, 1, 1, 1, 0, 0, 1, 0,
      0, 1, 1, 1, 1, 1, 1, 1, 1, 1, 1, 1, 1, 1, 1, 0, 1, 0,
      0, 1, 1, 1, 1, 1, 1, 1, 1, 1, 1, 1, 1, 1, 1, 1, 1, 0,
      0, 1, 1, 1, 1, 1, 1, 1, 1, 1, 1, 1, 1, 1, 1, 0, 1, 0,
      0, 1, 1, 1, 1, 1, 1, 1, 1, 1, 1, 1, 1, 1, 0, 0, 1, 0,
      0, 1, 1, 1, 1, 1, 1, 1, 1, 1, 1, 1, 1, 0, 0, 0, 1, 0,
      0, 1, 1, 1, 1, 1, 1, 1, 1, 1, 1, 1, 0, 0, 0, 0, 1, 0,
      0, 1, 1, 1, 1, 1, 1, 1, 1, 1, 1, 0, 0, 0, 0, 0, 1, 0,
      0, 1, 1, 1, 1, 1, 1, 1, 1, 1, 0, 0, 0, 0, 0, 0, 1, 0,
      0, 1, 1, 1, 1, 1, 1, 1, 1, 0, 0, 0, 0, 0, 0, 0, 1, 0,
      0, 1, 1, 1, 1, 1, 1, 1, 0, 0, 0, 0, 0, 0, 0, 0, 1, 0,
      0, 1, 1, 1, 1, 1, 1, 0, 0, 0, 0, 0, 0, 0, 0, 0, 1, 0,
      0, 1, 1, 1, 1, 1, 0, 0, 0, 0, 0, 0, 0, 0, 0, 0, 1, 0,
      0, 1, 1, 1, 1, 0, 0, 0, 0, 0, 0, 0, 0, 0, 0, 0, 1, 0,
      0, 1, 1, 1, 0, 0, 0, 0, 0, 0, 0, 0, 0, 0, 0, 0, 1, 0,
      0, 1, 1, 0, 0, 0, 0, 0, 0, 0, 0, 0, 0, 0, 0, 0, 1, 0,
      0, 1, 0, 0, 0, 0, 0, 0, 0, 0, 0, 0, 0, 0, 0, 1, 1, 0]"

text \<open>
  The globals as \<open>setup()\<close> of oledMainDEMO.cpp leaves them (the log of the bus started
  afresh): every playfield row holds the characters from \<open>'A' - 32\<close> on, sixteen sprites
  on a grid, the last of them the big one.
\<close>

definition demo_objects :: "GFX_OBJECT list" where
  "demo_objects =
     (map (\<lambda>i. \<lparr>obj_x = of_nat ((i mod 4) * 24), obj_y = of_nat ((i div 4) * 4 * 3), bType = 0\<rparr>)
        [0..<16]
      @ replicate 3 \<lparr>obj_x = 0, obj_y = 0, bType = 0\<rparr>)
     [15 := \<lparr>obj_x = 72, obj_y = 36, bType = 0x80\<rparr>]"

definition demo_state :: ram where
  "demo_state =
     \<lparr>bPlayfield = concat (replicate 10 (map of_nat [33..<51])),
      object_list = demo_objects,
      iScrollX = 0, iScrollY = 0, iScreenOffset = 896, bus = []\<rparr>"

text \<open>
  part_001 after \<open>setup()\<close> (\<open>reloadPlayField\<close> has copied rows 0..9 of the tile map) and
  after the encoder interrupt has taken \<open>iScrollY\<close> to 8.
\<close>

definition part001_state :: ram where
  "part001_state =
     \<lparr>bPlayfield = take 180 tileMap_part001,
      object_list = [\<lparr>obj_x = 14, obj_y = 40, bType = 0x80\<rparr>],
      iScrollX = 0, iScrollY = 8, iScreenOffset = 0, bus = []\<rparr>"

section \<open>Invariants of the loops\<close>

text \<open>
  What holds of the carried variables after \<open>i\<close> cells of a row, which globals a step
  leaves alone, and what holds between the pages.
\<close>

definition cells_inv :: "byte \<Rightarrow> nat \<Rightarrow> byte \<times> byte \<times> nat \<times> byte list \<Rightarrow> bool" where
  "cells_inv b0 i = (\<lambda>(tx, bX, d, buf). unat tx \<le> 35 \<and> length buf = 128 \<and>
     (if i = 0 then bX = b0 \<and> d = 0 else bX = 0 \<and> d = 8 * i - unat b0))"

definition same_globals :: "ram \<Rightarrow> ram \<Rightarrow> bool" where
  "same_globals st st' \<longleftrightarrow>
     bPlayfield st' = bPlayfield st \<and> object_list st' = object_list st \<and>
     iScrollX st' = iScrollX st \<and> iScrollY st' = iScrollY st"

definition page_inv :: "byte \<Rightarrow> ram \<Rightarrow> byte \<times> byte \<times> byte \<times> ram \<Rightarrow> bool" where
  "page_inv b0 st = (\<lambda>(y, ty, bX, st'). unat ty \<le> 19 \<and> bX = b0 \<and> same_globals st st')"

text \<open>
  The pages in detail: after \<open>i\<close> pages \<open>y\<close> is \<open>i\<close>, and the tile row the next page
  takes after its wrap is \<open>(t0 + i) mod 10\<close>, \<open>t0\<close> being the first value of \<open>ty\<close>.
\<close>

definition page_row_inv ::
  "byte \<Rightarrow> nat \<Rightarrow> ram \<Rightarrow> nat \<Rightarrow> byte \<times> byte \<times> byte \<times> ram \<Rightarrow> bool" where
  "page_row_inv b0 t0 st i = (\<lambda>(y, ty, bX, st'). unat y = i \<and> unat ty \<le> 19 \<and>
     unat (if ty \<ge> 10 then ty - 10 else ty) = (t0 + i) mod 10 \<and> bX = b0 \<and> same_globals st st')"

text \<open>The same for the sketch with adjustPlayField, where the offsets are \<open>int\<close>s.\<close>

definition cells_inv_part001 :: "nat \<Rightarrow> nat \<Rightarrow> byte \<times> nat \<times> nat \<times> byte list \<Rightarrow> bool" where
  "cells_inv_part001 b0 i = (\<lambda>(tx, bX, d, buf). unat tx \<le> 35 \<and> length buf = 128 \<and>
     (if i = 0 then bX = b0 \<and> d = 0 else bX = 0 \<and> d = 8 * i - b0))"

definition page_inv_part001 :: "ram \<Rightarrow> byte \<times> nat \<times> nat \<times> ram \<Rightarrow> bool" where
  "page_inv_part001 st = (\<lambda>(y, ty, bX, st'). bX \<le> 7 \<and> same_globals st st')"

text \<open>
  \<open>currentRow\<close> of adjustPlayField, and the playfield after \<open>i\<close> passes of its loop: the
  first \<open>i\<close> bytes of the rows at \<open>d1\<close> and \<open>d2\<close> come from rows \<open>r1\<close> and \<open>r2\<close> of the tile
  map.
\<close>

definition currentRow :: "ram \<Rightarrow> nat" where
  "currentRow st = unat (ucast (signed_drop_bit 3 (iScrollY st) + 1) :: byte)"

definition adjust_inv ::
  "progmem \<Rightarrow> nat \<Rightarrow> nat \<Rightarrow> nat \<Rightarrow> nat \<Rightarrow> byte list \<Rightarrow> nat \<Rightarrow> nat \<times> byte list \<Rightarrow> bool" where
  "adjust_inv tileMap d1 r1 d2 r2 pf i = (\<lambda>(x1, pf'). x1 = i \<and> length pf' = length pf \<and>
     (\<forall>j. pf' ! j =
        (if d1 \<le> j \<and> j < d1 + i then tileMap (r1 * 18 + (j - d1))
         else if d2 \<le> j \<and> j < d2 + i then tileMap (r2 * 18 + (j - d2))
         else pf ! j)))"

section \<open>Properties of DrawShiftedChar\<close>

lemma DrawShiftedChar_loop_Some:
  assumes "unat bYOff \<le> 8" "d + n \<le> length buf"
  shows "\<exists>buf'. DrawShiftedChar_loop tbl s1 s2 d bYOff n buf = Some buf' \<and>
           length buf' = length buf \<and>
           (\<forall>k<n. buf' ! (d + k) =
               drop_bit (unat bYOff) (tbl (s1 + k)) OR push_bit (8 - unat bYOff) (tbl (s2 + k))) \<and>
           (\<forall>j. j < d \<or> d + n \<le> j \<longrightarrow> buf' ! j = buf ! j)"
  using assms
proof (induction n arbitrary: s1 s2 d buf)
  case 0
  then show ?case by simp
next
  case (Suc n)
  let ?v = "drop_bit (unat bYOff) (tbl s1) OR push_bit (8 - unat bYOff) (tbl s2)"
  have dlt: "d < length buf" using Suc.prems by simp
  have "Suc d + n \<le> length (buf[d := ?v])" using Suc.prems by simp
  from Suc.IH [OF Suc.prems(1) this, of "Suc s1" "Suc s2"]
  obtain buf' where r: "DrawShiftedChar_loop tbl (Suc s1) (Suc s2) (Suc d) bYOff n (buf[d := ?v]) = Some buf'"
    and len: "length buf' = length buf"
    and wr: "\<forall>k<n. buf' ! (Suc d + k) =
               drop_bit (unat bYOff) (tbl (Suc s1 + k)) OR push_bit (8 - unat bYOff) (tbl (Suc s2 + k))"
    and fr: "\<forall>j. j < Suc d \<or> Suc d + n \<le> j \<longrightarrow> buf' ! j = (buf[d := ?v]) ! j"
    by auto
  have run: "DrawShiftedChar_loop tbl s1 s2 d bYOff (Suc n) buf = Some buf'"
    using Suc.prems(1) dlt r by (simp add: pgm_read_byte_def Let_def)
  have w: "buf' ! (d + k) =
             drop_bit (unat bYOff) (tbl (s1 + k)) OR push_bit (8 - unat bYOff) (tbl (s2 + k))"
    if "k < Suc n" for k
  proof (cases k)
    case 0
    then show ?thesis using fr dlt by simp
  next
    case (Suc k')
    then show ?thesis using wr that by simp
  qed
  have f: "buf' ! j = buf ! j" if "j < d \<or> d + Suc n \<le> j" for j
    using fr that by auto
  show ?case using run len w f by blast
qed

lemma byte_length: "LENGTH(8) = 8"
  by simp

lemma shift_formula_nat:
  "unat (drop_bit n (a :: byte) OR push_bit m b) =
     (unat a div 2 ^ n) OR ((unat b * 2 ^ m) mod 256)"
proof -
  have "unat (drop_bit n a) = unat a div 2 ^ n"
    by (metis unat_drop_bit_eq drop_bit_eq_div)
  moreover have "unat (push_bit m b) = (unat b * 2 ^ m) mod 2 ^ 8"
    by (metis unsigned_push_bit_eq push_bit_eq_mult take_bit_eq_mod byte_length)
  then have "unat (push_bit m b) = (unat b * 2 ^ m) mod 256" by simp
  ultimately show ?thesis by (simp only: unsigned_or_eq)
qed

text \<open>
  C1. For a vertical offset in 1..7, DrawShiftedChar writes exactly \<open>8 - bXOff\<close> bytes,
  at \<open>d, d+1, ...\<close>; the k-th of them is \<open>(top >> v) | (bottom << (8 - v))\<close> in 8-bit
  arithmetic, where top and bottom are the k-th bytes of the two sources; every other
  byte of the buffer is left as it was. Read as numbers: \<open>top div 2^v\<close> or-ed with
  \<open>(bottom * 2^(8 - v)) mod 256\<close>.
\<close>

theorem DrawShiftedChar_formula:
  assumes "1 \<le> unat bYOff" "unat bYOff \<le> 7" "d + (8 - unat bXOff) \<le> length buf"
  shows "\<exists>buf'. DrawShiftedChar tbl s1 s2 d bXOff bYOff buf = Some buf' \<and>
           length buf' = length buf \<and>
           (\<forall>k < 8 - unat bXOff. buf' ! (d + k) =
               drop_bit (unat bYOff) (tbl (s1 + k)) OR push_bit (8 - unat bYOff) (tbl (s2 + k))) \<and>
           (\<forall>k < 8 - unat bXOff. unat (buf' ! (d + k)) =
               (unat (tbl (s1 + k)) div 2 ^ unat bYOff) OR
               ((unat (tbl (s2 + k)) * 2 ^ (8 - unat bYOff)) mod 256)) \<and>
           (\<forall>j. j < d \<or> d + (8 - unat bXOff) \<le> j \<longrightarrow> buf' ! j = buf ! j)"
proof -
  have "unat bYOff \<le> 8" using assms(2) by simp
  from DrawShiftedChar_loop_Some [OF this assms(3), of tbl s1 s2]
  obtain buf' where r: "DrawShiftedChar tbl s1 s2 d bXOff bYOff buf = Some buf'"
    and len: "length buf' = length buf"
    and wr: "\<forall>k < 8 - unat bXOff. buf' ! (d + k) =
               drop_bit (unat bYOff) (tbl (s1 + k)) OR push_bit (8 - unat bYOff) (tbl (s2 + k))"
    and fr: "\<forall>j. j < d \<or> d + (8 - unat bXOff) \<le> j \<longrightarrow> buf' ! j = buf ! j"
    unfolding DrawShiftedChar_def by blast
  have "\<forall>k < 8 - unat bXOff. unat (buf' ! (d + k)) =
               (unat (tbl (s1 + k)) div 2 ^ unat bYOff) OR
               ((unat (tbl (s2 + k)) * 2 ^ (8 - unat bYOff)) mod 256)"
    using wr by (simp add: shift_formula_nat)
  then show ?thesis using r len wr fr by blast
qed

theorem DrawShiftedChar_formula_witness:
  "\<exists>buf'. DrawShiftedChar (flash ucFont_demo) 264 272 0 0 3 (replicate 128 0) = Some buf' \<and>
     length buf' = 128 \<and>
     (\<forall>k<8. buf' ! k =
        drop_bit 3 (flash ucFont_demo (264 + k)) OR push_bit 5 (flash ucFont_demo (272 + k)))"
  using DrawShiftedChar_formula [of 3 0 0 "replicate 128 0" "flash ucFont_demo" 264 272]
  by auto

lemma uniform_fill_rotation:
  assumes "b \<in> {0x00, 0xFF, 0x55, 0xAA}" "1 \<le> n" "n \<le> 7"
  shows "drop_bit n (b :: byte) OR push_bit (8 - n) b =
           (if b \<in> {0x00, 0xFF} \<or> even n then b else NOT b)"
proof -
  have "n = 1 \<or> n = 2 \<or> n = 3 \<or> n = 4 \<or> n = 5 \<or> n = 6 \<or> n = 7"
    using assms(2,3) by arith
  then show ?thesis using assms(1) by (elim disjE) auto
qed

text \<open>
  C7, as stated, fails: a column filled with \<open>0x55\<close> above and below, shifted by one
  pixel, comes out as \<open>0xAA\<close>.
\<close>

theorem DrawShiftedChar_fill_0x55_shift_1:
  "DrawShiftedChar (flash (replicate 8 0x55)) 0 0 0 0 1 (replicate 8 0) = Some (replicate 8 0xAA)"
  by code_simp

text \<open>
  C7, amended. With top and bottom both filled with \<open>b\<close> from \<open>{0x00, 0xFF, 0x55, 0xAA}\<close>
  and a vertical offset \<open>v\<close> in 1..7, every byte DrawShiftedChar writes is \<open>b\<close> again when
  \<open>b\<close> is \<open>0x00\<close> or \<open>0xFF\<close> or \<open>v\<close> is even; for \<open>0x55\<close> and \<open>0xAA\<close> with an odd \<open>v\<close> it
  is the complement of \<open>b\<close>.
\<close>

theorem DrawShiftedChar_uniform_fill:
  assumes "b \<in> {0x00, 0xFF, 0x55, 0xAA}" "1 \<le> unat bYOff" "unat bYOff \<le> 7"
    and "d + (8 - unat bXOff) \<le> length buf"
    and "\<forall>k < 8 - unat bXOff. tbl (s1 + k) = b \<and> tbl (s2 + k) = b"
  shows "\<exists>buf'. DrawShiftedChar tbl s1 s2 d bXOff bYOff buf = Some buf' \<and>
           (\<forall>k < 8 - unat bXOff. buf' ! (d + k) =
              (if b \<in> {0x00, 0xFF} \<or> even (unat bYOff) then b else NOT b))"
proof -
  have "unat bYOff \<le> 8" using assms(3) by simp
  from DrawShiftedChar_loop_Some [OF this assms(4), of tbl s1 s2]
  obtain buf' where r: "DrawShiftedChar tbl s1 s2 d bXOff bYOff buf = Some buf'"
    and wr: "\<forall>k < 8 - unat bXOff. buf' ! (d + k) =
               drop_bit (unat bYOff) (tbl (s1 + k)) OR push_bit (8 - unat bYOff) (tbl (s2 + k))"
    unfolding DrawShiftedChar_def by blast
  have "buf' ! (d + k) = (if b \<in> {0x00, 0xFF} \<or> even (unat bYOff) then b else NOT b)"
    if "k < 8 - unat bXOff" for k
  proof -
    have "buf' ! (d + k) = drop_bit (unat bYOff) b OR push_bit (8 - unat bYOff) b"
      using wr assms(5) that by simp
    then show ?thesis
      using uniform_fill_rotation [OF assms(1,2,3)] by simp
  qed
  then show ?thesis using r by blast
qed

theorem DrawShiftedChar_uniform_fill_witness:
  "\<exists>buf'. DrawShiftedChar (flash (replicate 8 0xAA)) 0 0 0 0 2 (replicate 8 0) = Some buf' \<and>
     (\<forall>k < 8. buf' ! k = 0xAA)"
  using DrawShiftedChar_uniform_fill
          [of "0xAA" 2 0 0 "replicate 8 0" "flash (replicate 8 0xAA)" 0 0]
  by (simp add: flash_def)

section \<open>Properties of DrawSprites\<close>

lemma blit_loop_Some:
  assumes "d + n \<le> length pBuf"
  shows "\<exists>buf'. blit_loop rd s d n pBuf = Some buf' \<and> length buf' = length pBuf \<and>
           (\<forall>k<n. buf' ! (d + k) = (pBuf ! (d + k) AND fst (rd (s + k))) OR snd (rd (s + k))) \<and>
           (\<forall>j. j < d \<or> d + n \<le> j \<longrightarrow> buf' ! j = pBuf ! j)"
  using assms
proof (induction n arbitrary: s d pBuf)
  case 0
  then show ?case by simp
next
  case (Suc n)
  let ?v = "(pBuf ! d AND fst (rd s)) OR snd (rd s)"
  have dlt: "d < length pBuf" using Suc.prems by simp
  have "Suc d + n \<le> length (pBuf[d := ?v])" using Suc.prems by simp
  from Suc.IH [OF this, of "Suc s"]
  obtain buf' where r: "blit_loop rd (Suc s) (Suc d) n (pBuf[d := ?v]) = Some buf'"
    and len: "length buf' = length pBuf"
    and wr: "\<forall>k<n. buf' ! (Suc d + k) =
               ((pBuf[d := ?v]) ! (Suc d + k) AND fst (rd (Suc s + k))) OR snd (rd (Suc s + k))"
    and fr: "\<forall>j. j < Suc d \<or> Suc d + n \<le> j \<longrightarrow> buf' ! j = (pBuf[d := ?v]) ! j"
    by auto
  have run: "blit_loop rd s d (Suc n) pBuf = Some buf'"
    using dlt r by (simp add: Let_def)
  have w: "buf' ! (d + k) = (pBuf ! (d + k) AND fst (rd (s + k))) OR snd (rd (s + k))"
    if "k < Suc n" for k
  proof (cases k)
    case 0
    then show ?thesis using fr dlt by simp
  next
    case (Suc k')
    then show ?thesis using wr that by simp
  qed
  have f: "buf' ! j = pBuf ! j" if "j < d \<or> d + Suc n \<le> j" for j
    using fr that by auto
  show ?case using run len w f by blast
qed

lemma DrawSprites_draw_blit:
  "DrawSprites_draw ucSprites ucBigSprites y pObject pBuf =
     blit_loop (sprite_reader ucSprites ucBigSprites y pObject) (sprite_source y pObject)
       (unat (obj_x pObject)) (sprite_width pObject) pBuf"
  by (simp add: DrawSprites_draw_def sprite_reader_def sprite_source_def sprite_width_def
      Let_def min_def)

lemma DrawSprites_body_visible:
  "DrawSprites_body ucSprites ucBigSprites y pObject pBuf =
     (if sprite_visible y pObject then DrawSprites_draw ucSprites ucBigSprites y pObject pBuf
      else Some pBuf)"
  by (auto simp add: DrawSprites_body_def sprite_visible_def Let_def)

lemma sprite_covers_inside: "sprite_covers y k pObject \<Longrightarrow> k < 128"
  by (auto simp add: sprite_covers_def sprite_visible_def sprite_width_def)

lemma DrawSprites_body_Some:
  assumes "128 \<le> length pBuf"
  shows "\<exists>buf'. DrawSprites_body ucSprites ucBigSprites y pObject pBuf = Some buf' \<and>
           length buf' = length pBuf \<and>
           (\<forall>k. buf' ! k = sprite_composite ucSprites ucBigSprites y k (pBuf ! k) pObject)"
proof (cases "sprite_visible y pObject")
  case False
  then show ?thesis
    by (simp add: DrawSprites_body_visible sprite_composite_def sprite_covers_def)
next
  case True
  let ?x = "unat (obj_x pObject)"
  let ?w = "sprite_width pObject"
  let ?rd = "sprite_reader ucSprites ucBigSprites y pObject"
  let ?s = "sprite_source y pObject"
  have "?x < 128" using True by (simp add: sprite_visible_def)
  then have fit: "?x + ?w \<le> length pBuf" using assms by (simp add: sprite_width_def)
  from blit_loop_Some [OF fit, of ?rd ?s]
  obtain buf' where r: "blit_loop ?rd ?s ?x ?w pBuf = Some buf'"
    and len: "length buf' = length pBuf"
    and wr: "\<forall>k<?w. buf' ! (?x + k) = (pBuf ! (?x + k) AND fst (?rd (?s + k))) OR snd (?rd (?s + k))"
    and fr: "\<forall>j. j < ?x \<or> ?x + ?w \<le> j \<longrightarrow> buf' ! j = pBuf ! j"
    by blast
  have "buf' ! k = sprite_composite ucSprites ucBigSprites y k (pBuf ! k) pObject" for k
  proof (cases "sprite_covers y k pObject")
    case False
    then show ?thesis using fr True by (auto simp add: sprite_composite_def sprite_covers_def)
  next
    case cov: True
    then have "k - ?x < ?w" and "?x + (k - ?x) = k" by (auto simp add: sprite_covers_def)
    then have "buf' ! k = (pBuf ! k AND fst (?rd (?s + (k - ?x)))) OR snd (?rd (?s + (k - ?x)))"
      using wr by metis
    then show ?thesis using cov
      by (simp add: sprite_composite_def sprite_mask_def sprite_pattern_def)
  qed
  then show ?thesis using r len True
    by (simp add: DrawSprites_body_visible DrawSprites_draw_blit)
qed

lemma DrawSprites_loop_Some:
  assumes "128 \<le> length pBuf" "i + n \<le> length pList"
  shows "\<exists>buf'. DrawSprites_loop ucSprites ucBigSprites y i n pBuf pList = Some (buf', pList) \<and>
           length buf' = length pBuf \<and>
           (\<forall>k. buf' ! k =
              foldl (sprite_composite ucSprites ucBigSprites y k) (pBuf ! k) (take n (drop i pList)))"
  using assms
proof (induction n arbitrary: i pBuf)
  case 0
  then show ?case by simp
next
  case (Suc n)
  have ilt: "i < length pList" using Suc.prems by simp
  from DrawSprites_body_Some [OF Suc.prems(1), of ucSprites ucBigSprites y "pList ! i"]
  obtain b1 where b: "DrawSprites_body ucSprites ucBigSprites y (pList ! i) pBuf = Some b1"
    and l1: "length b1 = length pBuf"
    and c1: "\<forall>k. b1 ! k = sprite_composite ucSprites ucBigSprites y k (pBuf ! k) (pList ! i)"
    by blast
  have l1': "128 \<le> length b1" using l1 Suc.prems(1) by simp
  have "Suc i + n \<le> length pList" using Suc.prems by simp
  from Suc.IH [OF l1' this]
  obtain buf' where r: "DrawSprites_loop ucSprites ucBigSprites y (Suc i) n b1 pList = Some (buf', pList)"
    and l2: "length buf' = length b1"
    and c2: "\<forall>k. buf' ! k =
              foldl (sprite_composite ucSprites ucBigSprites y k) (b1 ! k) (take n (drop (Suc i) pList))"
    by blast
  have split: "take (Suc n) (drop i pList) = pList ! i # take n (drop (Suc i) pList)"
    using ilt by (simp add: Cons_nth_drop_Suc [symmetric])
  have "DrawSprites_loop ucSprites ucBigSprites y i (Suc n) pBuf pList = Some (buf', pList)"
    using ilt b r by simp
  moreover have "\<forall>k. buf' ! k =
      foldl (sprite_composite ucSprites ucBigSprites y k) (pBuf ! k) (take (Suc n) (drop i pList))"
    using c1 c2 split by simp
  ultimately show ?case using l2 l1 by auto
qed

lemma foldl_inactive:
  "(\<forall>a\<in>set xs. \<forall>c. f c a = c) \<Longrightarrow> foldl f c xs = c"
  by (induction xs arbitrary: c) simp_all

lemma foldl_two_active:
  assumes "i < j" "j < length xs"
    and "\<forall>m<length xs. m \<noteq> i \<and> m \<noteq> j \<longrightarrow> (\<forall>c. f c (xs ! m) = c)"
  shows "foldl f c xs = f (f c (xs ! i)) (xs ! j)"
proof -
  have ilen: "i < length xs" using assms by simp
  let ?mid = "take (j - Suc i) (drop (Suc i) xs)"
  have d1: "xs = take i xs @ xs ! i # drop (Suc i) xs"
    using ilen by (simp add: id_take_nth_drop [symmetric])
  have jj: "j - Suc i < length (drop (Suc i) xs)" using assms by simp
  have nthj: "drop (Suc i) xs ! (j - Suc i) = xs ! j" using assms by simp
  have d2: "drop (Suc i) xs = ?mid @ xs ! j # drop (Suc j) xs"
    using id_take_nth_drop [OF jj] nthj assms(1) by (simp add: Suc_diff_Suc)
  have a1: "\<forall>a\<in>set (take i xs). \<forall>c. f c a = c"
    using assms ilen by (auto simp add: in_set_conv_nth)
  have a2: "\<forall>a\<in>set ?mid. \<forall>c. f c a = c"
  proof
    fix a assume "a \<in> set ?mid"
    then obtain m where m: "m < length ?mid" "a = ?mid ! m" by (auto simp add: in_set_conv_nth)
    then have "a = xs ! (Suc i + m)" and "Suc i + m < j" using assms by auto
    then show "\<forall>c. f c a = c" using assms by auto
  qed
  have a3: "\<forall>a\<in>set (drop (Suc j) xs). \<forall>c. f c a = c"
  proof
    fix a assume "a \<in> set (drop (Suc j) xs)"
    then obtain m where m: "m < length (drop (Suc j) xs)" "a = drop (Suc j) xs ! m"
      by (auto simp add: in_set_conv_nth)
    then have "a = xs ! (Suc j + m)" and "Suc j + m < length xs" using assms by auto
    then show "\<forall>c. f c a = c" using assms by auto
  qed
  have "foldl f c xs = foldl f c (take i xs @ xs ! i # ?mid @ xs ! j # drop (Suc j) xs)"
    using d1 d2 by simp
  also have "\<dots> = f (f c (xs ! i)) (xs ! j)"
    by (simp add: foldl_inactive [OF a1] foldl_inactive [OF a2] foldl_inactive [OF a3])
  finally show ?thesis .
qed


lemma and_7_eq_0_iff: "(w :: byte) AND 7 = 0 \<longleftrightarrow> unat w mod 8 = 0"
proof -
  have "w AND 7 = take_bit 3 w" by (simp add: take_bit_eq_mask mask_eq_exp_minus_1)
  then have "unat (w AND 7) = unat w mod 8" by (simp add: take_bit_eq_mod unat_mod)
  then show ?thesis by (metis unat_eq_0)
qed

text \<open>
  C3. The body of the sprite loop draws the sprite exactly when the three visibility
  conditions hold: \<open>sprite.y < y0 + 8\<close>, \<open>sprite.y + height > y0\<close> (height 16 with the high
  bit of \<open>bType\<close>, else 8) and \<open>sprite.x < 128\<close>; otherwise the buffer comes back as it
  was. A sprite with \<open>y = 16\<close> leaves the buffer alone on page 0 and is drawn on page 2.
\<close>

theorem DrawSprites_visibility:
  "DrawSprites_body ucSprites ucBigSprites y0 pObject pBuf =
     (if unat (obj_y pObject) < unat y0 + 8 \<and>
         unat (obj_y pObject) + (if bType pObject AND 0x80 \<noteq> 0 then 16 else 8) > unat y0 \<and>
         unat (obj_x pObject) < 128
      then DrawSprites_draw ucSprites ucBigSprites y0 pObject pBuf
      else Some pBuf) \<and>
   (obj_y pObject = 16 \<longrightarrow>
      DrawSprites ucSprites ucBigSprites (0 * 8) pBuf [pObject] 1 = Some (pBuf, [pObject])) \<and>
   (obj_y pObject = 16 \<and> unat (obj_x pObject) < 128 \<longrightarrow>
      DrawSprites ucSprites ucBigSprites (2 * 8) pBuf [pObject] 1 =
        map_option (\<lambda>b. (b, [pObject])) (DrawSprites_draw ucSprites ucBigSprites (2 * 8) pObject pBuf))"
proof (intro conjI impI)
  show "DrawSprites_body ucSprites ucBigSprites y0 pObject pBuf =
     (if unat (obj_y pObject) < unat y0 + 8 \<and>
         unat (obj_y pObject) + (if bType pObject AND 0x80 \<noteq> 0 then 16 else 8) > unat y0 \<and>
         unat (obj_x pObject) < 128
      then DrawSprites_draw ucSprites ucBigSprites y0 pObject pBuf
      else Some pBuf)"
    using DrawSprites_body_visible [of ucSprites ucBigSprites y0 pObject pBuf]
    by (simp add: sprite_visible_def)
next
  assume "obj_y pObject = 16"
  then have "\<not> sprite_visible (0 * 8) pObject" by (simp add: sprite_visible_def)
  then show "DrawSprites ucSprites ucBigSprites (0 * 8) pBuf [pObject] 1 = Some (pBuf, [pObject])"
    by (simp add: DrawSprites_def DrawSprites_body_visible)
next
  assume "obj_y pObject = 16 \<and> unat (obj_x pObject) < 128"
  then have "sprite_visible (2 * 8) pObject" by (simp add: sprite_visible_def)
  then show "DrawSprites ucSprites ucBigSprites (2 * 8) pBuf [pObject] 1 =
        map_option (\<lambda>b. (b, [pObject])) (DrawSprites_draw ucSprites ucBigSprites (2 * 8) pObject pBuf)"
    by (simp add: DrawSprites_def DrawSprites_body_visible split: option.split)
qed

theorem DrawSprites_visibility_witness:
  "DrawSprites (flash ucSprites_demo) (flash ucBigSprites_demo) (0 * 8) (replicate 128 0)
     [\<lparr>obj_x = 0, obj_y = 16, bType = 0\<rparr>] 1 =
     Some (replicate 128 0, [\<lparr>obj_x = 0, obj_y = 16, bType = 0\<rparr>]) \<and>
   DrawSprites (flash ucSprites_demo) (flash ucBigSprites_demo) (2 * 8) (replicate 128 0)
     [\<lparr>obj_x = 0, obj_y = 16, bType = 0\<rparr>] 1 =
     Some ([0x7C, 0xF6, 0x66, 0xFF, 0x7F, 0xF6, 0x66, 0xFC] @ replicate 120 0,
           [\<lparr>obj_x = 0, obj_y = 16, bType = 0\<rparr>])"
proof -
  have d: "DrawSprites_draw (flash ucSprites_demo) (flash ucBigSprites_demo) (2 * 8)
             \<lparr>obj_x = 0, obj_y = 16, bType = 0\<rparr> (replicate 128 0) =
           Some ([0x7C, 0xF6, 0x66, 0xFF, 0x7F, 0xF6, 0x66, 0xFC] @ replicate 120 0)"
    by code_simp
  show ?thesis
    using DrawSprites_visibility [of "flash ucSprites_demo" "flash ucBigSprites_demo" 0
            "\<lparr>obj_x = 0, obj_y = 16, bType = 0\<rparr>" "replicate 128 0"] d
    by simp
qed


text \<open>
  C4. A visible sprite whose \<open>y\<close> is a multiple of 8 turns every byte it covers into
  \<open>(dest & mask) | pattern\<close>, mask and pattern being the bytes of its glyph for that
  column (the pattern lies 32 bytes after the mask for a 16x16 glyph, 8 bytes for an 8x8
  one), and leaves the other bytes of the row buffer alone.
\<close>

theorem DrawSprites_aligned_composite:
  assumes "unat (obj_y pObject) < unat y0 + 8"
    and "unat (obj_y pObject) + (if bType pObject AND 0x80 \<noteq> 0 then 16 else 8) > unat y0"
    and "unat (obj_x pObject) < 128"
    and "unat (obj_y pObject) mod 8 = 0"
    and "length pBuf = 128"
  shows "\<exists>buf'. DrawSprites_body ucSprites ucBigSprites y0 pObject pBuf = Some buf' \<and>
           length buf' = 128 \<and>
           (\<forall>col < min (if bType pObject AND 0x80 \<noteq> 0 then 16 else 8) (128 - unat (obj_x pObject)).
              buf' ! (unat (obj_x pObject) + col) =
                (if bType pObject AND 0x80 \<noteq> 0
                 then (pBuf ! (unat (obj_x pObject) + col)
                         AND ucBigSprites (sprite_source y0 pObject + col))
                      OR ucBigSprites (sprite_source y0 pObject + col + 32)
                 else (pBuf ! (unat (obj_x pObject) + col)
                         AND ucSprites (sprite_source y0 pObject + col))
                      OR ucSprites (sprite_source y0 pObject + col + 8))) \<and>
           (\<forall>j<128. j < unat (obj_x pObject) \<or>
                unat (obj_x pObject) +
                  min (if bType pObject AND 0x80 \<noteq> 0 then 16 else 8) (128 - unat (obj_x pObject)) \<le> j
              \<longrightarrow> buf' ! j = pBuf ! j)"
proof -
  let ?x = "unat (obj_x pObject)"
  let ?w = "min (if bType pObject AND 0x80 \<noteq> 0 then 16 else 8) (128 - ?x)"
  have vis: "sprite_visible y0 pObject" using assms(1-3) by (simp add: sprite_visible_def)
  have al: "obj_y pObject AND 7 = 0" using assms(4) by (simp add: and_7_eq_0_iff)
  have "128 \<le> length pBuf" using assms(5) by simp
  from DrawSprites_body_Some [OF this, of ucSprites ucBigSprites y0 pObject]
  obtain buf' where r: "DrawSprites_body ucSprites ucBigSprites y0 pObject pBuf = Some buf'"
    and len: "length buf' = 128"
    and c: "\<forall>k. buf' ! k = sprite_composite ucSprites ucBigSprites y0 k (pBuf ! k) pObject"
    using assms(5) by auto
  have w: "sprite_width pObject = ?w" by (simp add: sprite_width_def)
  have inside: "buf' ! (?x + col) =
                (if bType pObject AND 0x80 \<noteq> 0
                 then (pBuf ! (?x + col) AND ucBigSprites (sprite_source y0 pObject + col))
                      OR ucBigSprites (sprite_source y0 pObject + col + 32)
                 else (pBuf ! (?x + col) AND ucSprites (sprite_source y0 pObject + col))
                      OR ucSprites (sprite_source y0 pObject + col + 8))"
    if "col < ?w" for col
  proof -
    have "?x + col < 128" using that assms(3) by (simp add: less_diff_conv ac_simps)
    then have "buf' ! (?x + col) =
        sprite_composite ucSprites ucBigSprites y0 (?x + col) (pBuf ! (?x + col)) pObject"
      using c by blast
    then show ?thesis using vis al that w
      by (simp add: sprite_composite_def sprite_covers_def sprite_mask_def sprite_pattern_def
          sprite_reader_def sprite16_aligned_def sprite8_def pgm_read_byte_def Let_def)
  qed
  have outside: "buf' ! j = pBuf ! j" if "j < 128" "j < ?x \<or> ?x + ?w \<le> j" for j
  proof -
    have "buf' ! j = sprite_composite ucSprites ucBigSprites y0 j (pBuf ! j) pObject"
      using c that(1) by blast
    then show ?thesis using that(2) w by (auto simp add: sprite_composite_def sprite_covers_def)
  qed
  show ?thesis using r len inside outside by blast
qed

theorem DrawSprites_aligned_composite_witness:
  "\<exists>buf'. DrawSprites_body
            (flash [0x0F, 0x0F, 0x0F, 0x0F, 0x0F, 0x0F, 0x0F, 0x0F,
                    0x05, 0x05, 0x05, 0x05, 0x05, 0x05, 0x05, 0x05])
            (flash ucBigSprites_demo) 8 \<lparr>obj_x = 24, obj_y = 8, bType = 0\<rparr>
            (replicate 128 0xF0) = Some buf' \<and>
          (\<forall>col<8. buf' ! (24 + col) = 0x05) \<and> buf' ! 23 = 0xF0 \<and> buf' ! 32 = 0xF0"
proof -
  let ?t = "[0x0F, 0x0F, 0x0F, 0x0F, 0x0F, 0x0F, 0x0F, 0x0F,
             0x05, 0x05, 0x05, 0x05, 0x05, 0x05, 0x05, 0x05] :: byte list"
  have t: "flash ?t col = 0x0F \<and> flash ?t (col + 8) = 0x05" if "col < 8" for col
  proof -
    have "col = 0 \<or> col = 1 \<or> col = 2 \<or> col = 3 \<or> col = 4 \<or> col = 5 \<or> col = 6 \<or> col = 7"
      using that by arith
    then show ?thesis by (elim disjE) (simp_all add: flash_def)
  qed
  show ?thesis
    using DrawSprites_aligned_composite [of "\<lparr>obj_x = 24, obj_y = 8, bType = 0\<rparr>" 8
            "replicate 128 0xF0" "flash ?t" "flash ucBigSprites_demo"] t
    by (auto simp add: sprite_source_def)
qed


lemma composite_opaque_bits:
  "((c AND m) OR p) AND NOT m = p AND NOT (m :: byte)"
  by (simp add: bit_eq_iff bit_simps) blast

lemma DrawSprites_body_columns:
  assumes "128 \<le> length pBuf" "sprite_visible y pObject"
  shows "\<exists>buf'. DrawSprites_body ucSprites ucBigSprites y pObject pBuf = Some buf' \<and>
           length buf' = length pBuf \<and>
           (\<forall>col < min (if bType pObject AND 0x80 \<noteq> 0 then 16 else 8) (128 - unat (obj_x pObject)).
              buf' ! (unat (obj_x pObject) + col) =
                (pBuf ! (unat (obj_x pObject) + col)
                   AND sprite_mask ucSprites ucBigSprites y (unat (obj_x pObject) + col) pObject)
                OR sprite_pattern ucSprites ucBigSprites y (unat (obj_x pObject) + col) pObject) \<and>
           (\<forall>j. j < unat (obj_x pObject) \<or>
                unat (obj_x pObject) +
                  min (if bType pObject AND 0x80 \<noteq> 0 then 16 else 8) (128 - unat (obj_x pObject)) \<le> j
              \<longrightarrow> buf' ! j = pBuf ! j)"
proof -
  let ?x = "unat (obj_x pObject)"
  let ?w = "min (if bType pObject AND 0x80 \<noteq> 0 then 16 else 8) (128 - ?x)"
  have w: "sprite_width pObject = ?w" by (simp add: sprite_width_def)
  from DrawSprites_body_Some [OF assms(1), of ucSprites ucBigSprites y pObject]
  obtain buf' where r: "DrawSprites_body ucSprites ucBigSprites y pObject pBuf = Some buf'"
    and len: "length buf' = length pBuf"
    and c: "\<forall>k. buf' ! k = sprite_composite ucSprites ucBigSprites y k (pBuf ! k) pObject"
    by blast
  have inside: "buf' ! (?x + col) =
                (pBuf ! (?x + col) AND sprite_mask ucSprites ucBigSprites y (?x + col) pObject)
                OR sprite_pattern ucSprites ucBigSprites y (?x + col) pObject"
    if "col < ?w" for col
  proof -
    have "sprite_covers y (?x + col) pObject"
      using assms(2) that w by (simp add: sprite_covers_def)
    then show ?thesis using c by (simp add: sprite_composite_def)
  qed
  have outside: "buf' ! j = pBuf ! j" if "j < ?x \<or> ?x + ?w \<le> j" for j
  proof -
    have "\<not> sprite_covers y j pObject" using that w by (auto simp add: sprite_covers_def)
    then show ?thesis using c by (simp add: sprite_composite_def)
  qed
  show ?thesis using r len inside outside by blast
qed

text \<open>
  C5. DrawSprites never reads or writes the row buffer outside \<open>pBuf[0..127]\<close>: on a
  buffer of at least 128 bytes it returns, and whatever lies from index 128 on is
  untouched. A visible sprite composites exactly \<open>min(spriteWidth, 128 - sprite.x)\<close>
  columns: each byte at \<open>x .. x + min(..) - 1\<close> becomes \<open>(dest & mask) | pattern\<close> and every
  other byte stays as it was (the loop that does it runs that many times). A 16-wide
  sprite at \<open>x = 124\<close> composites the four bytes 124..127 and changes nothing else.
\<close>

theorem DrawSprites_clipped:
  assumes "128 \<le> length pBuf" "unat bCount \<le> length pList"
  shows "(\<exists>buf'. DrawSprites ucSprites ucBigSprites y pBuf pList bCount = Some (buf', pList) \<and>
            length buf' = length pBuf \<and> (\<forall>j\<ge>128. buf' ! j = pBuf ! j)) \<and>
         (\<forall>pObject. sprite_visible y pObject \<longrightarrow>
            (\<exists>buf'. DrawSprites_body ucSprites ucBigSprites y pObject pBuf = Some buf' \<and>
               length buf' = length pBuf \<and>
               (\<forall>col < min (if bType pObject AND 0x80 \<noteq> 0 then 16 else 8)
                             (128 - unat (obj_x pObject)).
                  buf' ! (unat (obj_x pObject) + col) =
                    (pBuf ! (unat (obj_x pObject) + col)
                       AND sprite_mask ucSprites ucBigSprites y (unat (obj_x pObject) + col) pObject)
                    OR sprite_pattern ucSprites ucBigSprites y (unat (obj_x pObject) + col) pObject) \<and>
               (\<forall>j. j < unat (obj_x pObject) \<or>
                    unat (obj_x pObject) +
                      min (if bType pObject AND 0x80 \<noteq> 0 then 16 else 8)
                          (128 - unat (obj_x pObject)) \<le> j
                  \<longrightarrow> buf' ! j = pBuf ! j))) \<and>
         (\<forall>pObject. DrawSprites_draw ucSprites ucBigSprites y pObject pBuf =
            blit_loop (sprite_reader ucSprites ucBigSprites y pObject) (sprite_source y pObject)
              (unat (obj_x pObject))
              (min (if bType pObject AND 0x80 \<noteq> 0 then 16 else 8) (128 - unat (obj_x pObject)))
              pBuf) \<and>
         (\<forall>pObject. sprite_visible y pObject \<and> obj_x pObject = 124 \<and> bType pObject AND 0x80 \<noteq> 0 \<longrightarrow>
            (\<exists>buf'. DrawSprites_body ucSprites ucBigSprites y pObject pBuf = Some buf' \<and>
               length buf' = length pBuf \<and>
               (\<forall>col < 4. buf' ! (124 + col) =
                    (pBuf ! (124 + col) AND sprite_mask ucSprites ucBigSprites y (124 + col) pObject)
                    OR sprite_pattern ucSprites ucBigSprites y (124 + col) pObject) \<and>
               (\<forall>j. j < 124 \<or> 128 \<le> j \<longrightarrow> buf' ! j = pBuf ! j)))"
proof (intro conjI allI impI)
  from DrawSprites_loop_Some [OF assms(1), of 0 "unat bCount" pList ucSprites ucBigSprites y]
  obtain buf' where r: "DrawSprites ucSprites ucBigSprites y pBuf pList bCount = Some (buf', pList)"
    and len: "length buf' = length pBuf"
    and c: "\<forall>k. buf' ! k = foldl (sprite_composite ucSprites ucBigSprites y k) (pBuf ! k)
                              (take (unat bCount) pList)"
    using assms(2) by (auto simp add: DrawSprites_def)
  have "buf' ! j = pBuf ! j" if "128 \<le> j" for j
  proof -
    have "\<forall>a\<in>set (take (unat bCount) pList). \<forall>c. sprite_composite ucSprites ucBigSprites y j c a = c"
      using that sprite_covers_inside [of y j] by (fastforce simp add: sprite_composite_def)
    then show ?thesis using c by (simp add: foldl_inactive)
  qed
  then show "\<exists>buf'. DrawSprites ucSprites ucBigSprites y pBuf pList bCount = Some (buf', pList) \<and>
            length buf' = length pBuf \<and> (\<forall>j\<ge>128. buf' ! j = pBuf ! j)"
    using r len by blast
next
  fix pObject :: GFX_OBJECT
  assume "sprite_visible y pObject"
  then show "\<exists>buf'. DrawSprites_body ucSprites ucBigSprites y pObject pBuf = Some buf' \<and>
               length buf' = length pBuf \<and>
               (\<forall>col < min (if bType pObject AND 0x80 \<noteq> 0 then 16 else 8)
                             (128 - unat (obj_x pObject)).
                  buf' ! (unat (obj_x pObject) + col) =
                    (pBuf ! (unat (obj_x pObject) + col)
                       AND sprite_mask ucSprites ucBigSprites y (unat (obj_x pObject) + col) pObject)
                    OR sprite_pattern ucSprites ucBigSprites y (unat (obj_x pObject) + col) pObject) \<and>
               (\<forall>j. j < unat (obj_x pObject) \<or>
                    unat (obj_x pObject) +
                      min (if bType pObject AND 0x80 \<noteq> 0 then 16 else 8)
                          (128 - unat (obj_x pObject)) \<le> j
                  \<longrightarrow> buf' ! j = pBuf ! j)"
    by (rule DrawSprites_body_columns [OF assms(1)])
next
  fix pObject
  show "DrawSprites_draw ucSprites ucBigSprites y pObject pBuf =
            blit_loop (sprite_reader ucSprites ucBigSprites y pObject) (sprite_source y pObject)
              (unat (obj_x pObject))
              (min (if bType pObject AND 0x80 \<noteq> 0 then 16 else 8) (128 - unat (obj_x pObject)))
              pBuf"
    by (simp add: DrawSprites_draw_blit sprite_width_def)
next
  fix pObject :: GFX_OBJECT
  assume a: "sprite_visible y pObject \<and> obj_x pObject = 124 \<and> bType pObject AND 0x80 \<noteq> 0"
  then have v: "sprite_visible y pObject" by simp
  from DrawSprites_body_columns [OF assms(1) v, of ucSprites ucBigSprites] a
  show "\<exists>buf'. DrawSprites_body ucSprites ucBigSprites y pObject pBuf = Some buf' \<and>
               length buf' = length pBuf \<and>
               (\<forall>col < 4. buf' ! (124 + col) =
                    (pBuf ! (124 + col) AND sprite_mask ucSprites ucBigSprites y (124 + col) pObject)
                    OR sprite_pattern ucSprites ucBigSprites y (124 + col) pObject) \<and>
               (\<forall>j. j < 124 \<or> 128 \<le> j \<longrightarrow> buf' ! j = pBuf ! j)"
    by simp
qed

theorem DrawSprites_clipped_witness:
  "DrawSprites (flash ucSprites_demo) (flash ucBigSprites_demo) 40 (replicate 128 0xFF)
     [\<lparr>obj_x = 124, obj_y = 36, bType = 0x80\<rparr>] 1 =
     Some (replicate 124 0xFF @ [0xFF, 0xFF, 0x03, 0x79],
           [\<lparr>obj_x = 124, obj_y = 36, bType = 0x80\<rparr>]) \<and>
   (\<exists>buf'. DrawSprites_body (flash ucSprites_demo) (flash ucBigSprites_demo) 40
             \<lparr>obj_x = 124, obj_y = 36, bType = 0x80\<rparr> (replicate 128 0xFF) = Some buf' \<and>
           length buf' = 128 \<and>
           (\<forall>col < 4. buf' ! (124 + col) =
              (0xFF AND sprite_mask (flash ucSprites_demo) (flash ucBigSprites_demo) 40 (124 + col)
                          \<lparr>obj_x = 124, obj_y = 36, bType = 0x80\<rparr>)
              OR sprite_pattern (flash ucSprites_demo) (flash ucBigSprites_demo) 40 (124 + col)
                   \<lparr>obj_x = 124, obj_y = 36, bType = 0x80\<rparr>) \<and>
           (\<forall>j < 124. buf' ! j = 0xFF))"
proof -
  let ?o = "\<lparr>obj_x = 124, obj_y = 36, bType = 0x80\<rparr>"
  have run: "DrawSprites (flash ucSprites_demo) (flash ucBigSprites_demo) 40 (replicate 128 0xFF)
               [?o] 1 = Some (replicate 124 0xFF @ [0xFF, 0xFF, 0x03, 0x79], [?o])"
    by code_simp
  have h: "128 \<le> length (replicate 128 (0xFF :: byte))" "unat (1 :: byte) \<le> length [?o]"
    by simp_all
  have v: "sprite_visible 40 ?o \<and> obj_x ?o = 124 \<and> bType ?o AND 0x80 \<noteq> 0"
    by (simp add: sprite_visible_def)
  from DrawSprites_clipped [OF h, of "flash ucSprites_demo" "flash ucBigSprites_demo" 40]
  have "\<forall>pObject. sprite_visible 40 pObject \<and> obj_x pObject = 124 \<and> bType pObject AND 0x80 \<noteq> 0 \<longrightarrow>
            (\<exists>buf'. DrawSprites_body (flash ucSprites_demo) (flash ucBigSprites_demo) 40 pObject
                      (replicate 128 0xFF) = Some buf' \<and>
               length buf' = length (replicate 128 (0xFF :: byte)) \<and>
               (\<forall>col < 4. buf' ! (124 + col) =
                    (replicate 128 0xFF ! (124 + col)
                       AND sprite_mask (flash ucSprites_demo) (flash ucBigSprites_demo) 40 (124 + col) pObject)
                    OR sprite_pattern (flash ucSprites_demo) (flash ucBigSprites_demo) 40 (124 + col) pObject) \<and>
               (\<forall>j. j < 124 \<or> 128 \<le> j \<longrightarrow> buf' ! j = replicate 128 0xFF ! j))"
    by blast
  from this [rule_format, OF v]
  obtain buf' where b: "DrawSprites_body (flash ucSprites_demo) (flash ucBigSprites_demo) 40 ?o
                      (replicate 128 0xFF) = Some buf'"
    and l: "length buf' = 128"
    and w: "\<forall>col < 4. buf' ! (124 + col) =
                    (replicate 128 0xFF ! (124 + col)
                       AND sprite_mask (flash ucSprites_demo) (flash ucBigSprites_demo) 40 (124 + col) ?o)
                    OR sprite_pattern (flash ucSprites_demo) (flash ucBigSprites_demo) 40 (124 + col) ?o"
    and f: "\<forall>j. j < 124 \<or> 128 \<le> j \<longrightarrow> buf' ! j = replicate 128 (0xFF :: byte) ! j"
    by auto
  have "\<forall>col < 4. buf' ! (124 + col) =
          (0xFF AND sprite_mask (flash ucSprites_demo) (flash ucBigSprites_demo) 40 (124 + col) ?o)
          OR sprite_pattern (flash ucSprites_demo) (flash ucBigSprites_demo) 40 (124 + col) ?o"
    using w by simp
  moreover have "\<forall>j < 124. buf' ! j = 0xFF" using f by simp
  ultimately show ?thesis using run b l by blast
qed

text \<open>
  C10. DrawSprites composites the sprites in increasing index order: every byte of the
  result is the left fold of the per-sprite compositing over the first \<open>bCount\<close>
  sprites. Where exactly two of them, \<open>i < j\<close>, cover a byte, the byte is sprite \<open>i\<close>'s
  mask and pattern applied first and sprite \<open>j\<close>'s second, so on the bits where the mask
  of \<open>j\<close> is 0 the result shows the pattern of \<open>j\<close>.
\<close>

theorem DrawSprites_painters_order:
  assumes "128 \<le> length pBuf" "unat bCount \<le> length pList"
  shows "\<exists>buf'. DrawSprites ucSprites ucBigSprites y pBuf pList bCount = Some (buf', pList) \<and>
           (\<forall>k. buf' ! k = foldl (sprite_composite ucSprites ucBigSprites y k) (pBuf ! k)
                              (take (unat bCount) pList)) \<and>
           (\<forall>k i j. i < j \<and> j < unat bCount \<and>
                sprite_covers y k (pList ! i) \<and> sprite_covers y k (pList ! j) \<and>
                (\<forall>m < unat bCount. m \<noteq> i \<and> m \<noteq> j \<longrightarrow> \<not> sprite_covers y k (pList ! m)) \<longrightarrow>
              buf' ! k =
                (((pBuf ! k AND sprite_mask ucSprites ucBigSprites y k (pList ! i))
                    OR sprite_pattern ucSprites ucBigSprites y k (pList ! i))
                  AND sprite_mask ucSprites ucBigSprites y k (pList ! j))
                 OR sprite_pattern ucSprites ucBigSprites y k (pList ! j) \<and>
              buf' ! k AND NOT (sprite_mask ucSprites ucBigSprites y k (pList ! j)) =
                sprite_pattern ucSprites ucBigSprites y k (pList ! j)
                  AND NOT (sprite_mask ucSprites ucBigSprites y k (pList ! j)))"
proof -
  let ?n = "unat bCount"
  let ?L = "take ?n pList"
  from DrawSprites_loop_Some [OF assms(1), of 0 ?n pList ucSprites ucBigSprites y]
  obtain buf' where r: "DrawSprites ucSprites ucBigSprites y pBuf pList bCount = Some (buf', pList)"
    and c: "\<forall>k. buf' ! k = foldl (sprite_composite ucSprites ucBigSprites y k) (pBuf ! k) ?L"
    using assms(2) by (auto simp add: DrawSprites_def)
  have lenL: "length ?L = ?n" using assms(2) by simp
  have pair: "buf' ! k =
                (((pBuf ! k AND sprite_mask ucSprites ucBigSprites y k (pList ! i))
                    OR sprite_pattern ucSprites ucBigSprites y k (pList ! i))
                  AND sprite_mask ucSprites ucBigSprites y k (pList ! j))
                 OR sprite_pattern ucSprites ucBigSprites y k (pList ! j)"
    if h: "i < j" "j < ?n" "sprite_covers y k (pList ! i)" "sprite_covers y k (pList ! j)"
      "\<forall>m < ?n. m \<noteq> i \<and> m \<noteq> j \<longrightarrow> \<not> sprite_covers y k (pList ! m)"
    for k i j
  proof -
    let ?f = "sprite_composite ucSprites ucBigSprites y k"
    have jl: "j < length ?L" using h(2) lenL by simp
    have inactive: "\<forall>m<length ?L. m \<noteq> i \<and> m \<noteq> j \<longrightarrow> (\<forall>c. ?f c (?L ! m) = c)"
      using h(5) lenL by (simp add: sprite_composite_def)
    have "foldl ?f (pBuf ! k) ?L = ?f (?f (pBuf ! k) (?L ! i)) (?L ! j)"
      by (rule foldl_two_active [OF h(1) jl inactive])
    moreover have "?L ! i = pList ! i" "?L ! j = pList ! j" using h(1,2) by simp_all
    ultimately show ?thesis using c h(3,4) by (simp add: sprite_composite_def)
  qed
  show ?thesis
  proof (intro exI conjI allI impI)
    show "DrawSprites ucSprites ucBigSprites y pBuf pList bCount = Some (buf', pList)" by (rule r)
    show "buf' ! k = foldl (sprite_composite ucSprites ucBigSprites y k) (pBuf ! k) ?L" for k
      using c by blast
  next
    fix k i j
    assume "i < j \<and> j < unat bCount \<and>
                sprite_covers y k (pList ! i) \<and> sprite_covers y k (pList ! j) \<and>
                (\<forall>m < unat bCount. m \<noteq> i \<and> m \<noteq> j \<longrightarrow> \<not> sprite_covers y k (pList ! m))"
    then have p: "buf' ! k =
                (((pBuf ! k AND sprite_mask ucSprites ucBigSprites y k (pList ! i))
                    OR sprite_pattern ucSprites ucBigSprites y k (pList ! i))
                  AND sprite_mask ucSprites ucBigSprites y k (pList ! j))
                 OR sprite_pattern ucSprites ucBigSprites y k (pList ! j)"
      using pair by blast
    then show "buf' ! k =
                (((pBuf ! k AND sprite_mask ucSprites ucBigSprites y k (pList ! i))
                    OR sprite_pattern ucSprites ucBigSprites y k (pList ! i))
                  AND sprite_mask ucSprites ucBigSprites y k (pList ! j))
                 OR sprite_pattern ucSprites ucBigSprites y k (pList ! j)" .
    show "buf' ! k AND NOT (sprite_mask ucSprites ucBigSprites y k (pList ! j)) =
                sprite_pattern ucSprites ucBigSprites y k (pList ! j)
                  AND NOT (sprite_mask ucSprites ucBigSprites y k (pList ! j))"
      by (simp only: p composite_opaque_bits)
  qed
qed


theorem DrawSprites_painters_order_witness:
  "\<exists>buf'. DrawSprites (flash ucSprites_demo) (flash ucBigSprites_demo) 0 (replicate 128 0)
            [\<lparr>obj_x = 0, obj_y = 0, bType = 0\<rparr>, \<lparr>obj_x = 4, obj_y = 0, bType = 0\<rparr>] 2 =
            Some (buf', [\<lparr>obj_x = 0, obj_y = 0, bType = 0\<rparr>, \<lparr>obj_x = 4, obj_y = 0, bType = 0\<rparr>]) \<and>
          buf' ! 5 = (((0 AND flash ucSprites_demo 5) OR flash ucSprites_demo 13)
                        AND flash ucSprites_demo 1) OR flash ucSprites_demo 9"
proof -
  let ?a = "\<lparr>obj_x = 0, obj_y = 0, bType = 0\<rparr>"
  let ?b = "\<lparr>obj_x = 4, obj_y = 0, bType = 0\<rparr>"
  let ?sm = "flash ucSprites_demo"
  let ?bg = "flash ucBigSprites_demo"
  have cov: "sprite_covers 0 5 ?a" "sprite_covers 0 5 ?b"
    by (simp_all add: sprite_covers_def sprite_visible_def sprite_width_def)
  have mp: "sprite_mask ?sm ?bg 0 5 ?a = ?sm 5" "sprite_pattern ?sm ?bg 0 5 ?a = ?sm 13"
    "sprite_mask ?sm ?bg 0 5 ?b = ?sm 1" "sprite_pattern ?sm ?bg 0 5 ?b = ?sm 9"
    by (simp_all add: sprite_mask_def sprite_pattern_def sprite_reader_def sprite_source_def
        sprite8_def pgm_read_byte_def)
  from DrawSprites_painters_order [of "replicate 128 0" 2 "[?a, ?b]" ?sm ?bg 0]
  obtain buf' where r: "DrawSprites ?sm ?bg 0 (replicate 128 0) [?a, ?b] 2 = Some (buf', [?a, ?b])"
    and pair: "\<forall>k i j. i < j \<and> j < unat (2 :: byte) \<and>
                sprite_covers 0 k ([?a, ?b] ! i) \<and> sprite_covers 0 k ([?a, ?b] ! j) \<and>
                (\<forall>m < unat (2 :: byte). m \<noteq> i \<and> m \<noteq> j \<longrightarrow> \<not> sprite_covers 0 k ([?a, ?b] ! m)) \<longrightarrow>
              buf' ! k =
                (((replicate 128 0 ! k AND sprite_mask ?sm ?bg 0 k ([?a, ?b] ! i))
                    OR sprite_pattern ?sm ?bg 0 k ([?a, ?b] ! i))
                  AND sprite_mask ?sm ?bg 0 k ([?a, ?b] ! j))
                 OR sprite_pattern ?sm ?bg 0 k ([?a, ?b] ! j)"
    by force
  have two: "m < 2 \<Longrightarrow> m = 0 \<or> m = Suc 0" for m :: nat by arith
  have none: "\<forall>m < unat (2 :: byte). m \<noteq> 0 \<and> m \<noteq> 1 \<longrightarrow> \<not> sprite_covers 0 5 ([?a, ?b] ! m)"
    using two by auto
  from pair [rule_format, of 0 1 5] cov none
  have "buf' ! 5 =
          (((replicate 128 0 ! 5 AND sprite_mask ?sm ?bg 0 5 ?a) OR sprite_pattern ?sm ?bg 0 5 ?a)
             AND sprite_mask ?sm ?bg 0 5 ?b) OR sprite_pattern ?sm ?bg 0 5 ?b"
    by simp
  then have "buf' ! 5 = (((0 AND ?sm 5) OR ?sm 13) AND ?sm 1) OR ?sm 9"
    by (simp only: mp) simp
  then show ?thesis using r by blast
qed

section \<open>Properties of DrawPlayfield\<close>

lemma loop_times_indexed:
  assumes "P 0 s" "\<And>i s. i < n \<Longrightarrow> P i s \<Longrightarrow> \<exists>s'. body s = Some s' \<and> P (Suc i) s'"
  shows "\<exists>s'. loop_times n body s = Some s' \<and> P n s'"
  using assms
proof (induction n arbitrary: s P)
  case 0
  then show ?case by simp
next
  case (Suc n)
  from Suc.prems(2) [of 0 s] Suc.prems(1)
  obtain s1 where s1: "body s = Some s1" "P (Suc 0) s1" by auto
  have "\<exists>s'. loop_times n body s1 = Some s' \<and> (\<lambda>i. P (Suc i)) n s'"
    by (rule Suc.IH) (use s1 Suc.prems(2) in auto)
  then show ?case using s1 by simp
qed

lemma memcpy_P_Some:
  assumes "d + n \<le> length buf"
  shows "\<exists>buf'. memcpy_P buf d tbl s n = Some buf' \<and> length buf' = length buf \<and>
           (\<forall>k<n. buf' ! (d + k) = tbl (s + k)) \<and>
           (\<forall>j. j < d \<or> d + n \<le> j \<longrightarrow> buf' ! j = buf ! j)"
  using assms
proof (induction n arbitrary: s d buf)
  case 0
  then show ?case by simp
next
  case (Suc n)
  have dlt: "d < length buf" using Suc.prems by simp
  have "Suc d + n \<le> length (buf[d := tbl s])" using Suc.prems by simp
  from Suc.IH [OF this, of "Suc s"]
  obtain buf' where r: "memcpy_P (buf[d := tbl s]) (Suc d) tbl (Suc s) n = Some buf'"
    and len: "length buf' = length buf"
    and wr: "\<forall>k<n. buf' ! (Suc d + k) = tbl (Suc s + k)"
    and fr: "\<forall>j. j < Suc d \<or> Suc d + n \<le> j \<longrightarrow> buf' ! j = (buf[d := tbl s]) ! j"
    by auto
  have run: "memcpy_P buf d tbl s (Suc n) = Some buf'"
    using dlt r by (simp add: pgm_read_byte_def)
  have w: "buf' ! (d + k) = tbl (s + k)" if "k < Suc n" for k
  proof (cases k)
    case 0
    then show ?thesis using fr dlt by simp
  next
    case (Suc k')
    then show ?thesis using wr that by simp
  qed
  have f: "buf' ! j = buf ! j" if "j < d \<or> d + Suc n \<le> j" for j
    using fr that by auto
  show ?case using run len w f by blast
qed

lemma DrawShiftedChar_loop_unshifted:
  "DrawShiftedChar_loop tbl s1 s2 d 0 n buf = memcpy_P buf d tbl s1 n"
  by (induction n arbitrary: s1 s2 d buf) (simp_all add: Let_def)

lemma tx_wrap: "unat tx \<le> 35 \<Longrightarrow> unat (if tx \<ge> 18 then tx - 18 else tx :: byte) \<le> 17"
  by (auto simp add: word_le_nat_alt unat_sub)

lemma tx_next: "unat (tx :: byte) \<le> 17 \<Longrightarrow> unat (tx + 1) \<le> 35"
  by (simp add: unat_word_ariths)

lemma size_t_length: "unat bXOff \<le> 8 \<Longrightarrow> unat (8 - ucast (bXOff :: byte) :: 16 word) = 8 - unat bXOff"
proof -
  assume a: "unat bXOff \<le> 8"
  have "unat bXOff < 2 ^ 16" using a by simp
  then have u: "unat (ucast bXOff :: 16 word) = unat bXOff"
    by (simp add: unsigned_ucast_eq take_bit_nat_eq_self)
  then have "ucast bXOff \<le> (8 :: 16 word)" using a by (simp add: word_le_nat_alt)
  then show ?thesis using u by (simp add: unat_sub)
qed

lemma cursor_to_offset: "unat (b0 :: byte) \<le> 7 \<Longrightarrow> 128 - word_of_nat (128 - unat b0) = b0"
  by (simp add: of_nat_diff)


lemma playfield_index:
  "unat (tx :: byte) \<le> 17 \<Longrightarrow> unat (ty :: byte) < 10 \<Longrightarrow> unat tx + unat ty * 18 < 180"
  by arith

lemma copied_cell_step:
  assumes "length pf = 180" "unat ty < 10" "unat tx \<le> 35" "unat bX \<le> 8"
    and "d + (8 - unat bX) \<le> length buf"
  shows "\<exists>tx' buf'. DrawPlayfield_copied_cell ucFont pf ty (tx, bX, d, buf) =
             Some (tx', 0, d + (8 - unat bX), buf') \<and>
           unat tx' \<le> 35 \<and> length buf' = length buf"
proof -
  let ?tx = "if tx \<ge> 18 then tx - 18 else tx"
  have w: "unat ?tx \<le> 17" using tx_wrap [OF assms(3)] .
  have i: "unat ?tx + unat ty * 18 < length pf"
    using playfield_index [OF w assms(2)] assms(1) by simp
  from memcpy_P_Some [OF assms(5), of ucFont "unat (pf ! (unat ?tx + unat ty * 18)) * 8 + unat bX"]
  obtain buf' where m: "memcpy_P buf d ucFont (unat (pf ! (unat ?tx + unat ty * 18)) * 8 + unat bX)
                          (8 - unat bX) = Some buf'"
    and len: "length buf' = length buf" by blast
  have "DrawPlayfield_copied_cell ucFont pf ty (tx, bX, d, buf) =
          Some (?tx + 1, 0, d + (8 - unat bX), buf')"
    using i m by (simp add: DrawPlayfield_copied_cell_def Let_def size_t_length [OF assms(4)])
  then show ?thesis using len tx_next [OF w] by blast
qed

lemma shifted_cell_step:
  assumes "length pf = 180" "unat ty < 10" "unat tx \<le> 35" "unat bX \<le> 8" "unat bYOff \<le> 8"
    and "d + (8 - unat bX) \<le> length buf"
  shows "\<exists>tx' buf'. DrawPlayfield_shifted_cell ucFont pf ty bYOff (tx, bX, d, buf) =
             Some (tx', 0, d + (8 - unat bX), buf') \<and>
           unat tx' \<le> 35 \<and> length buf' = length buf"
proof -
  let ?tx = "if tx \<ge> 18 then tx - 18 else tx"
  let ?i = "unat ?tx + unat ty * 18"
  let ?i2 = "if ?i + 18 \<ge> 180 then ?i + 18 - 180 else ?i + 18"
  have w: "unat ?tx \<le> 17" using tx_wrap [OF assms(3)] .
  have i: "?i < length pf" using playfield_index [OF w assms(2)] assms(1) by simp
  then have i2: "?i2 < length pf" using assms(1) by auto
  from DrawShiftedChar_loop_Some [OF assms(5,6), of ucFont "unat (pf ! ?i) * 8 + unat bX"
         "unat (pf ! ?i2) * 8 + unat bX"]
  obtain buf' where m: "DrawShiftedChar ucFont (unat (pf ! ?i) * 8 + unat bX)
                          (unat (pf ! ?i2) * 8 + unat bX) d bX bYOff buf = Some buf'"
    and len: "length buf' = length buf" unfolding DrawShiftedChar_def by blast
  have "DrawPlayfield_shifted_cell ucFont pf ty bYOff (tx, bX, d, buf) =
          Some (?tx + 1, 0, d + (8 - unat bX), buf')"
    using i i2 m by (simp add: DrawPlayfield_shifted_cell_def Let_def)
  then show ?thesis using len tx_next [OF w] by blast
qed

lemma cells_16:
  assumes step: "\<And>tx bX d buf. unat tx \<le> 35 \<Longrightarrow> unat bX \<le> 8 \<Longrightarrow> d + (8 - unat bX) \<le> length buf \<Longrightarrow>
             \<exists>tx' buf'. cell (tx, bX, d, buf) = Some (tx', 0, d + (8 - unat bX), buf') \<and>
               unat tx' \<le> 35 \<and> length buf' = length buf"
    and "unat (tx :: byte) \<le> 35" "unat (b0 :: byte) \<le> 7" "length (buf :: byte list) = 128"
  shows "\<exists>tx' buf'. loop_times 16 cell (tx, b0, 0, buf) = Some (tx', 0, 128 - unat b0, buf') \<and>
           unat tx' \<le> 35 \<and> length buf' = 128"
proof -
  have init: "cells_inv b0 0 (tx, b0, 0, buf)" using assms(2,4) by (simp add: cells_inv_def)
  have pres: "\<exists>s'. cell s = Some s' \<and> cells_inv b0 (Suc i) s'" if "i < 16" "cells_inv b0 i s" for i s
  proof -
    obtain tx1 bX d b1 where s: "s = (tx1, bX, d, b1)" by (cases s) auto
    have inv: "unat tx1 \<le> 35" "length b1 = 128"
      "if i = 0 then bX = b0 \<and> d = 0 else bX = 0 \<and> d = 8 * i - unat b0"
      using that(2) by (simp_all add: cells_inv_def s)
    have bx: "unat bX \<le> 8" using inv(3) assms(3) by (auto split: if_splits)
    have fit: "d + (8 - unat bX) \<le> length b1"
      using inv(2,3) that(1) assms(3) by (auto split: if_splits)
    from step [OF inv(1) bx fit]
    obtain tx' buf' where r: "cell (tx1, bX, d, b1) = Some (tx', 0, d + (8 - unat bX), buf')"
      and t: "unat tx' \<le> 35" and l: "length buf' = length b1" by blast
    have "d + (8 - unat bX) = 8 * Suc i - unat b0"
      using inv(3) assms(3) by (auto split: if_splits)
    then have "cells_inv b0 (Suc i) (tx', 0, d + (8 - unat bX), buf')"
      using t l inv(2) by (simp add: cells_inv_def)
    then show ?thesis using r s by blast
  qed
  from loop_times_indexed [of "cells_inv b0" "(tx, b0, 0, buf)" 16 cell, OF init pres]
  obtain s' where r: "loop_times 16 cell (tx, b0, 0, buf) = Some s'" and p: "cells_inv b0 16 s'"
    by blast
  obtain tx' bX d buf' where s': "s' = (tx', bX, d, buf')" by (cases s') auto
  then have "unat tx' \<le> 35" "length buf' = 128" "bX = 0" "d = 128 - unat b0"
    using p by (simp_all add: cells_inv_def)
  then show ?thesis using r s' by blast
qed

lemma copied_partial_Some:
  assumes "length pf = 180" "unat ty < 10" "unat tx \<le> 35" "unat b0 \<le> 7" "length buf = 128"
  shows "\<exists>buf'. DrawPlayfield_copied_partial ucFont pf ty tx 0 (128 - unat b0) buf = Some (b0, buf') \<and>
           length buf' = 128"
proof (cases "unat b0 = 0")
  case True
  then have "b0 = 0" by (simp add: unat_eq_0)
  then show ?thesis using assms(5) by (simp add: DrawPlayfield_copied_partial_def)
next
  case False
  let ?tx = "if tx \<ge> 18 then tx - 18 else tx"
  let ?d = "128 - unat b0"
  have dne: "?d \<noteq> 128" using False by simp
  have w: "unat ?tx \<le> 17" using tx_wrap [OF assms(3)] .
  have i: "unat ?tx + unat ty * 18 < length pf"
    using playfield_index [OF w assms(2)] assms(1) by simp
  have "?d + unat b0 \<le> length buf" using assms(4,5) by simp
  from memcpy_P_Some [OF this, of ucFont "unat (pf ! (unat ?tx + unat ty * 18)) * 8"]
  obtain buf' where m: "memcpy_P buf ?d ucFont (unat (pf ! (unat ?tx + unat ty * 18)) * 8) (unat b0)
                          = Some buf'"
    and len: "length buf' = length buf" by blast
  have "DrawPlayfield_copied_partial ucFont pf ty tx 0 ?d buf = Some (b0, buf')"
    using dne i m
    by (simp add: DrawPlayfield_copied_partial_def Let_def cursor_to_offset [OF assms(4)])
  then show ?thesis using len assms(5) by simp
qed

lemma offset_complement: "unat (b0 :: byte) \<le> 7 \<Longrightarrow> 8 - unat (8 - b0) = unat b0"
proof -
  assume a: "unat b0 \<le> 7"
  then have "b0 \<le> 8" by (simp add: word_le_nat_alt)
  then have "unat (8 - b0) = 8 - unat b0" by (simp add: unat_sub)
  then show ?thesis using a by simp
qed

lemma shifted_partial_Some:
  assumes "length pf = 180" "unat ty < 10" "unat tx \<le> 35" "unat b0 \<le> 7" "length buf = 128"
    and "unat bYOff \<le> 8"
  shows "\<exists>buf'. DrawPlayfield_shifted_partial ucFont pf ty bYOff tx 0 (128 - unat b0) buf =
             Some (b0, buf') \<and> length buf' = 128"
proof (cases "unat b0 = 0")
  case True
  then have "b0 = 0" by (simp add: unat_eq_0)
  then show ?thesis using assms(5) by (simp add: DrawPlayfield_shifted_partial_def)
next
  case False
  let ?tx = "if tx \<ge> 18 then tx - 18 else tx"
  let ?d = "128 - unat b0"
  let ?i = "unat ?tx + unat ty * 18"
  let ?i2 = "if ?i + 18 \<ge> 180 then ?i + 18 - 180 else ?i + 18"
  have dne: "?d \<noteq> 128" using False by simp
  have w: "unat ?tx \<le> 17" using tx_wrap [OF assms(3)] .
  have i: "?i < length pf" using playfield_index [OF w assms(2)] assms(1) by simp
  then have i2: "?i2 < length pf" using assms(1) by auto
  have "?d + unat b0 \<le> length buf" using assms(4,5) by simp
  from DrawShiftedChar_loop_Some [OF assms(6) this, of ucFont "unat (pf ! ?i) * 8" "unat (pf ! ?i2) * 8"]
  obtain buf' where m: "DrawShiftedChar ucFont (unat (pf ! ?i) * 8) (unat (pf ! ?i2) * 8) ?d
                          (8 - b0) bYOff buf = Some buf'"
    and len: "length buf' = length buf"
    unfolding DrawShiftedChar_def offset_complement [OF assms(4)] by blast
  have "DrawPlayfield_shifted_partial ucFont pf ty bYOff tx 0 ?d buf = Some (b0, buf')"
    using dne i i2 m
    by (simp add: DrawPlayfield_shifted_partial_def Let_def cursor_to_offset [OF assms(4)])
  then show ?thesis using len assms(5) by simp
qed

lemma copied_row_Some:
  assumes "length pf = 180" "unat ty < 10" "unat tx \<le> 35" "unat b0 \<le> 7" "length buf = 128"
  shows "\<exists>buf'. DrawPlayfield_copied_row ucFont pf ty tx b0 buf = Some (b0, buf') \<and> length buf' = 128"
proof -
  have "\<exists>tx' buf'. loop_times 16 (DrawPlayfield_copied_cell ucFont pf ty) (tx, b0, 0, buf) =
          Some (tx', 0, 128 - unat b0, buf') \<and> unat tx' \<le> 35 \<and> length buf' = 128"
    by (rule cells_16 [OF copied_cell_step [OF assms(1,2)] assms(3,4,5)])
  then obtain tx' b1 where c: "loop_times 16 (DrawPlayfield_copied_cell ucFont pf ty) (tx, b0, 0, buf) =
          Some (tx', 0, 128 - unat b0, b1)" and t: "unat tx' \<le> 35" and l: "length b1 = 128" by blast
  from copied_partial_Some [OF assms(1,2) t assms(4) l, of ucFont]
  show ?thesis using c by (simp add: DrawPlayfield_copied_row_def)
qed

lemma shifted_row_Some:
  assumes "length pf = 180" "unat ty < 10" "unat tx \<le> 35" "unat b0 \<le> 7" "length buf = 128"
    and "unat bYOff \<le> 8"
  shows "\<exists>buf'. DrawPlayfield_shifted_row ucFont pf ty bYOff tx b0 buf = Some (b0, buf') \<and>
           length buf' = 128"
proof -
  have "\<exists>tx' buf'. loop_times 16 (DrawPlayfield_shifted_cell ucFont pf ty bYOff) (tx, b0, 0, buf) =
          Some (tx', 0, 128 - unat b0, buf') \<and> unat tx' \<le> 35 \<and> length buf' = 128"
  proof (rule cells_16 [OF _ assms(3,4,5)])
    fix tx bX :: byte and d :: nat and buf :: "byte list"
    assume "unat tx \<le> 35" "unat bX \<le> 8" "d + (8 - unat bX) \<le> length buf"
    then show "\<exists>tx' buf'. DrawPlayfield_shifted_cell ucFont pf ty bYOff (tx, bX, d, buf) =
             Some (tx', 0, d + (8 - unat bX), buf') \<and> unat tx' \<le> 35 \<and> length buf' = length buf"
      using shifted_cell_step [OF assms(1,2) _ _ assms(6)] by blast
  qed
  then obtain tx' b1 where c: "loop_times 16 (DrawPlayfield_shifted_cell ucFont pf ty bYOff)
          (tx, b0, 0, buf) = Some (tx', 0, 128 - unat b0, b1)"
    and t: "unat tx' \<le> 35" and l: "length b1 = 128" by blast
  from shifted_partial_Some [OF assms(1,2) t assms(4) l assms(6), of ucFont]
  show ?thesis using c by (simp add: DrawPlayfield_shifted_row_def)
qed


lemma same_globals_refl: "same_globals st st"
  by (simp add: same_globals_def)

lemma same_globals_trans: "same_globals a b \<Longrightarrow> same_globals b c \<Longrightarrow> same_globals a c"
  by (simp add: same_globals_def)

lemma oledWriteCommand_frame:
  "\<exists>st'. oledWriteCommand c st = Some st' \<and> same_globals st st'"
  by (simp add: oledWriteCommand_def I2CWrite_def same_globals_def)

lemma oledSetPosition_frame:
  "\<exists>st'. oledSetPosition xp yp st = Some st' \<and> same_globals st st'"
proof -
  obtain s1 where s1: "oledWriteCommand (ucast (0xb0 OR yp)) st = Some s1" "same_globals st s1"
    using oledWriteCommand_frame by blast
  obtain s2 where s2: "oledWriteCommand (ucast (0x00 OR (xp AND 0xf))) s1 = Some s2"
    "same_globals s1 s2"
    using oledWriteCommand_frame by blast
  obtain s3 where s3: "oledWriteCommand (ucast (0x10 OR (signed_drop_bit 4 xp AND 0xf))) s2 = Some s3"
    "same_globals s2 s3"
    using oledWriteCommand_frame by blast
  have "same_globals st (s3\<lparr>iScreenOffset := yp * 128 + xp\<rparr>)"
    using s1(2) s2(2) s3(2) by (simp add: same_globals_def)
  moreover have "oledSetPosition xp yp st = Some (s3\<lparr>iScreenOffset := yp * 128 + xp\<rparr>)"
    using s1(1) s2(1) s3(1) by (simp add: oledSetPosition_def)
  ultimately show ?thesis by blast
qed

lemma I2CWriteData_frame:
  "length pData = 128 \<Longrightarrow> \<exists>st'. I2CWriteData pData 128 st = Some st' \<and> same_globals st st'"
  by (simp add: I2CWriteData_def same_globals_def)

lemma ty_wrap: "unat ty \<le> 19 \<Longrightarrow> unat (if ty \<ge> 10 then ty - 10 else ty :: byte) < 10"
  by (auto simp add: word_le_nat_alt unat_sub)

lemma ty_next: "unat (ty :: byte) < 10 \<Longrightarrow> unat (ty + 1) \<le> 10"
  by (simp add: unat_word_ariths)

lemma tx_start: "unat (drop_bit 3 (bScrollX :: byte)) \<le> 35"
proof -
  have "unat bScrollX < 256" using unsigned_less [of bScrollX] by simp
  then show ?thesis by (simp add: drop_bit_eq_div unat_div)
qed

lemma and_7_le: "unat ((w :: byte) AND 7) \<le> 7"
  using word_and_le1 [of w 7] by (simp add: word_le_nat_alt)

lemma DrawPlayfield_page_Some:
  assumes "length (bPlayfield st) = 180" "unat numberOfSprites \<le> length (object_list st)"
    and "unat ty \<le> 19" "unat bX \<le> 7" "unat bYOff \<le> 7"
  shows "\<exists>ty' st'. DrawPlayfield_page ucFont ucSprites ucBigSprites bScrollX bYOff (y, ty, bX, st) =
             Some (y + 1, ty', bX, st') \<and> unat ty' \<le> 10 \<and> same_globals st st'"
proof -
  let ?ty = "if ty \<ge> 10 then ty - 10 else ty"
  let ?tx = "drop_bit 3 bScrollX"
  let ?row = "if bYOff \<noteq> 0
              then DrawPlayfield_shifted_row ucFont (bPlayfield st) ?ty bYOff ?tx bX (replicate 128 0)
              else DrawPlayfield_copied_row ucFont (bPlayfield st) ?ty ?tx bX (replicate 128 0)"
  have ty: "unat ?ty < 10" using ty_wrap [OF assms(3)] .
  have by8: "unat bYOff \<le> 8" using assms(5) by simp
  have l0: "length (replicate 128 (0 :: byte)) = 128" by simp
  obtain b1 where row: "?row = Some (bX, b1)" and l1: "length b1 = 128"
    using copied_row_Some [OF assms(1) ty tx_start assms(4) l0, of ucFont bScrollX]
      shifted_row_Some [OF assms(1) ty tx_start assms(4) l0 by8, of ucFont bScrollX]
    by (cases "bYOff = 0") auto
  have "128 \<le> length b1" using l1 by simp
  from DrawSprites_loop_Some [OF this, of 0 "unat numberOfSprites" "object_list st"
         ucSprites ucBigSprites "y * 8"]
  obtain b2 where spr: "DrawSprites ucSprites ucBigSprites (y * 8) b1 (object_list st) numberOfSprites =
                     Some (b2, object_list st)" and l2: "length b2 = 128"
    using assms(2) l1 by (auto simp add: DrawSprites_def)
  obtain s1 where s1: "oledSetPosition 0 (ucast y) (st\<lparr>object_list := object_list st\<rparr>) = Some s1"
    "same_globals (st\<lparr>object_list := object_list st\<rparr>) s1"
    using oledSetPosition_frame by blast
  obtain s2 where s2: "I2CWriteData b2 128 s1 = Some s2" "same_globals s1 s2"
    using I2CWriteData_frame [OF l2] by blast
  have "DrawPlayfield_page ucFont ucSprites ucBigSprites bScrollX bYOff (y, ty, bX, st) =
          Some (y + 1, ?ty + 1, bX, s2)"
    using row spr s1(1) s2(1) by (simp add: DrawPlayfield_page_def Let_def)
  moreover have "same_globals st s2" using s1(2) s2(2) by (simp add: same_globals_def)
  ultimately show ?thesis using ty_next [OF ty] by blast
qed

lemma DrawPlayfield_Some:
  assumes "length (bPlayfield st) = 180" "unat numberOfSprites \<le> length (object_list st)"
    and "unat bScrollY < 160"
  shows "\<exists>st'. DrawPlayfield ucFont ucSprites ucBigSprites bScrollX bScrollY st = Some st' \<and>
           same_globals st st'"
proof -
  let ?b0 = "bScrollX AND 7"
  let ?bY = "bScrollY AND 7"
  let ?page = "DrawPlayfield_page ucFont ucSprites ucBigSprites bScrollX ?bY"
  have "unat (drop_bit 3 bScrollY) = unat bScrollY div 8"
    by (simp add: drop_bit_eq_div unat_div)
  then have ty0: "unat (drop_bit 3 bScrollY) \<le> 19" using assms(3) by simp
  have init: "page_inv ?b0 st (0, drop_bit 3 bScrollY, ?b0, st)"
    using ty0 by (simp add: page_inv_def same_globals_refl)
  have pres: "\<exists>s'. ?page s = Some s' \<and> page_inv ?b0 st s'" if "page_inv ?b0 st s" for s
  proof -
    obtain y ty bX s1 where s: "s = (y, ty, bX, s1)" by (cases s) auto
    have inv: "unat ty \<le> 19" "bX = ?b0" "same_globals st s1"
      using that by (simp_all add: page_inv_def s)
    have wf: "length (bPlayfield s1) = 180" "unat numberOfSprites \<le> length (object_list s1)"
      using inv(3) assms(1,2) by (simp_all add: same_globals_def)
    have bx: "unat bX \<le> 7" using inv(2) and_7_le by simp
    from DrawPlayfield_page_Some [OF wf inv(1) bx and_7_le, of ucFont ucSprites ucBigSprites bScrollX
           bScrollY y]
    obtain ty' s2 where r: "?page (y, ty, bX, s1) = Some (y + 1, ty', bX, s2)"
      and t: "unat ty' \<le> 10" and g: "same_globals s1 s2" by blast
    have "page_inv ?b0 st (y + 1, ty', bX, s2)"
      using t inv(2) same_globals_trans [OF inv(3) g] by (simp add: page_inv_def)
    then show ?thesis using r s by blast
  qed
  from loop_times_indexed [of "\<lambda>i. page_inv ?b0 st" "(0, drop_bit 3 bScrollY, ?b0, st)" 8 ?page]
    init pres
  obtain s' where r: "loop_times 8 ?page (0, drop_bit 3 bScrollY, ?b0, st) = Some s'"
    and p: "page_inv ?b0 st s'" by blast
  obtain y ty bX st' where s': "s' = (y, ty, bX, st')" by (cases s') auto
  then have "same_globals st st'" using p by (simp add: page_inv_def)
  moreover have "DrawPlayfield ucFont ucSprites ucBigSprites bScrollX bScrollY st = Some st'"
    using r s' by (simp add: DrawPlayfield_def Let_def)
  ultimately show ?thesis by blast
qed


lemma loop_times_first_fails: "body s = None \<Longrightarrow> 0 < n \<Longrightarrow> loop_times n body s = None"
  by (cases n) simp_all

lemma ty_wrap_high:
  assumes "160 \<le> unat (bScrollY :: byte)"
  shows "10 \<le> unat (if drop_bit 3 bScrollY \<ge> 10 then drop_bit 3 bScrollY - 10 else drop_bit 3 bScrollY)"
proof -
  have "unat (drop_bit 3 bScrollY) = unat bScrollY div 8"
    by (simp add: drop_bit_eq_div unat_div)
  then have "20 \<le> unat (drop_bit 3 bScrollY)" using assms by simp
  then show ?thesis by (auto simp add: word_le_nat_alt unat_sub)
qed

lemma DrawPlayfield_page_out_of_bounds:
  assumes "length (bPlayfield st) = 180"
    and "10 \<le> unat (if ty \<ge> 10 then ty - 10 else ty)"
  shows "DrawPlayfield_page ucFont ucSprites ucBigSprites bScrollX bYOff (y, ty, bX, st) = None"
proof -
  let ?ty = "if ty \<ge> 10 then ty - 10 else ty"
  have far: "\<not> unat tx + unat ?ty * 18 < 180" for tx :: byte using assms(2) by simp
  have c: "DrawPlayfield_copied_cell ucFont (bPlayfield st) ?ty s = None" for s
    using far assms(1) by (cases s) (simp add: DrawPlayfield_copied_cell_def Let_def)
  have sh: "DrawPlayfield_shifted_cell ucFont (bPlayfield st) ?ty bYOff s = None" for s
    using far assms(1) by (cases s) (simp add: DrawPlayfield_shifted_cell_def Let_def)
  have "DrawPlayfield_copied_row ucFont (bPlayfield st) ?ty tx bX buf = None" for tx buf
    by (simp add: DrawPlayfield_copied_row_def loop_times_first_fails [OF c])
  moreover have "DrawPlayfield_shifted_row ucFont (bPlayfield st) ?ty bYOff tx bX buf = None" for tx buf
    by (simp add: DrawPlayfield_shifted_row_def loop_times_first_fails [OF sh])
  ultimately show ?thesis by (simp add: DrawPlayfield_page_def Let_def)
qed

lemma DrawPlayfield_out_of_bounds_from_160:
  assumes "length (bPlayfield st) = 180" "160 \<le> unat bScrollY"
  shows "DrawPlayfield ucFont ucSprites ucBigSprites bScrollX bScrollY st = None"
  using DrawPlayfield_page_out_of_bounds [OF assms(1) ty_wrap_high [OF assms(2)]]
  by (simp add: DrawPlayfield_def Let_def loop_times_first_fails)

lemma demo_state_playfield: "length (bPlayfield demo_state) = 180"
  by code_simp

lemma demo_state_sprites: "unat numberOfSprites \<le> length (object_list demo_state)"
  by (simp add: numberOfSprites_def demo_state_def demo_objects_def)

lemma demo_state_font_reads:
  "\<forall>c \<in> set (bPlayfield demo_state). unat c * 8 + 15 < length ucFont_demo"
  by code_simp

text \<open>
  C2, as stated, fails for \<open>bScrollY \<ge> 160\<close>: \<open>ty\<close> starts at \<open>bScrollY >> 3 \<ge> 20\<close> and
  \<open>if (ty >= 10) ty -= 10\<close> subtracts once, so the tile row of page 0 is 10 or more
  (not \<open>(bScrollY >> 3) mod 10\<close>) and the first cell reads \<open>bPlayfield[tx + ty * 18]\<close> at
  an index of 180 or more. At \<open>bScrollY = 160\<close>, on the globals \<open>setup()\<close> leaves: the
  first cell of page 0, and so DrawPlayfield, ends in an access outside the array.
\<close>

theorem DrawPlayfield_scroll_160_out_of_bounds:
  "DrawPlayfield_copied_cell (flash ucFont_demo) (bPlayfield demo_state) (drop_bit 3 160 - 10)
     (drop_bit 3 0, 0 AND 7, 0, replicate 128 0) = None \<and>
   DrawPlayfield (flash ucFont_demo) (flash ucSprites_demo) (flash ucBigSprites_demo) 0 160
     demo_state = None"
proof
  show "DrawPlayfield_copied_cell (flash ucFont_demo) (bPlayfield demo_state) (drop_bit 3 160 - 10)
     (drop_bit 3 0, 0 AND 7, 0, replicate 128 0) = None"
    using demo_state_playfield by (simp add: DrawPlayfield_copied_cell_def Let_def)
  show "DrawPlayfield (flash ucFont_demo) (flash ucSprites_demo) (flash ucBigSprites_demo) 0 160
     demo_state = None"
    by (rule DrawPlayfield_out_of_bounds_from_160 [OF demo_state_playfield]) simp
qed

text \<open>The tile row of each page, and the bytes of \<open>bPlayfield\<close> a cell reads.\<close>

lemma wrap10_nat: "n < 20 \<Longrightarrow> (if 10 \<le> n then n - 10 else n) = n mod (10 :: nat)"
proof (cases "n < 10")
  case True
  then show ?thesis by simp
next
  case False
  assume "n < 20"
  then have "n - 10 < 10" by simp
  moreover have "n mod 10 = (n - 10) mod 10" using False by (simp add: le_mod_geq)
  ultimately show ?thesis using False by simp
qed


lemma ty_wrap_unat:
  "unat (if ty \<ge> 10 then ty - 10 else ty :: byte) = (if 10 \<le> unat ty then unat ty - 10 else unat ty)"
  by (auto simp add: word_le_nat_alt unat_sub)


lemma next_row_mod:
  assumes "m = k mod 10"
  shows "(if 10 \<le> m + 1 then m + 1 - 10 else m + 1) = (k + 1) mod (10 :: nat)"
proof -
  have "m < 10" using assms by simp
  then show ?thesis using assms mod_Suc [of k 10] by auto
qed


lemma DrawPlayfield_page_exact:
  assumes "length (bPlayfield st) = 180" "unat numberOfSprites \<le> length (object_list st)"
    and "unat ty \<le> 19" "unat bX \<le> 7" "unat bYOff \<le> 7"
  shows "\<exists>st'. DrawPlayfield_page ucFont ucSprites ucBigSprites bScrollX bYOff (y, ty, bX, st) =
             Some (y + 1, (if ty \<ge> 10 then ty - 10 else ty) + 1, bX, st') \<and> same_globals st st'"
proof -
  let ?ty = "if ty \<ge> 10 then ty - 10 else ty"
  let ?tx = "drop_bit 3 bScrollX"
  let ?row = "if bYOff \<noteq> 0
              then DrawPlayfield_shifted_row ucFont (bPlayfield st) ?ty bYOff ?tx bX (replicate 128 0)
              else DrawPlayfield_copied_row ucFont (bPlayfield st) ?ty ?tx bX (replicate 128 0)"
  have ty: "unat ?ty < 10" using ty_wrap [OF assms(3)] .
  have by8: "unat bYOff \<le> 8" using assms(5) by simp
  have l0: "length (replicate 128 (0 :: byte)) = 128" by simp
  obtain b1 where row: "?row = Some (bX, b1)" and l1: "length b1 = 128"
    using copied_row_Some [OF assms(1) ty tx_start assms(4) l0, of ucFont bScrollX]
      shifted_row_Some [OF assms(1) ty tx_start assms(4) l0 by8, of ucFont bScrollX]
    by (cases "bYOff = 0") auto
  have "128 \<le> length b1" using l1 by simp
  from DrawSprites_loop_Some [OF this, of 0 "unat numberOfSprites" "object_list st"
         ucSprites ucBigSprites "y * 8"]
  obtain b2 where spr: "DrawSprites ucSprites ucBigSprites (y * 8) b1 (object_list st) numberOfSprites =
                     Some (b2, object_list st)" and l2: "length b2 = 128"
    using assms(2) l1 by (auto simp add: DrawSprites_def)
  obtain s1 where s1: "oledSetPosition 0 (ucast y) (st\<lparr>object_list := object_list st\<rparr>) = Some s1"
    "same_globals (st\<lparr>object_list := object_list st\<rparr>) s1"
    using oledSetPosition_frame by blast
  obtain s2 where s2: "I2CWriteData b2 128 s1 = Some s2" "same_globals s1 s2"
    using I2CWriteData_frame [OF l2] by blast
  have "DrawPlayfield_page ucFont ucSprites ucBigSprites bScrollX bYOff (y, ty, bX, st) =
          Some (y + 1, ?ty + 1, bX, s2)"
    using row spr s1(1) s2(1) by (simp add: DrawPlayfield_page_def Let_def)
  moreover have "same_globals st s2" using s1(2) s2(2) by (simp add: same_globals_def)
  ultimately show ?thesis by blast
qed

lemma DrawPlayfield_pages_prefix:
  assumes "length (bPlayfield st) = 180" "unat numberOfSprites \<le> length (object_list st)"
    and "unat bScrollY < 160" "p \<le> 8"
  shows "\<exists>y ty st'.
           loop_times p (DrawPlayfield_page ucFont ucSprites ucBigSprites bScrollX (bScrollY AND 7))
             (0, drop_bit 3 bScrollY, bScrollX AND 7, st) = Some (y, ty, bScrollX AND 7, st') \<and>
           unat y = p \<and> unat ty \<le> 19 \<and>
           unat (if ty \<ge> 10 then ty - 10 else ty) = (unat bScrollY div 8 + p) mod 10 \<and>
           same_globals st st'"
proof -
  let ?b0 = "bScrollX AND 7"
  let ?t0 = "unat bScrollY div 8"
  let ?page = "DrawPlayfield_page ucFont ucSprites ucBigSprites bScrollX (bScrollY AND 7)"
  have t0: "unat (drop_bit 3 bScrollY) = ?t0" by (simp add: drop_bit_eq_div unat_div)
  have t19: "?t0 < 20" using assms(3) by simp
  have w0: "unat (if drop_bit 3 bScrollY \<ge> 10 then drop_bit 3 bScrollY - 10 else drop_bit 3 bScrollY) =
              ?t0 mod 10"
    unfolding ty_wrap_unat t0 by (rule wrap10_nat [OF t19])
  have init: "page_row_inv ?b0 ?t0 st 0 (0, drop_bit 3 bScrollY, ?b0, st)"
    using t19 by (simp only: page_row_inv_def prod.case w0 t0 same_globals_refl) simp
  have pres: "\<exists>s'. ?page s = Some s' \<and> page_row_inv ?b0 ?t0 st (Suc i) s'"
    if "i < p" "page_row_inv ?b0 ?t0 st i s" for i s
  proof -
    obtain y ty bX s1 where s: "s = (y, ty, bX, s1)" by (cases s) auto
    have inv: "unat y = i" "unat ty \<le> 19"
      "unat (if ty \<ge> 10 then ty - 10 else ty) = (?t0 + i) mod 10" "bX = ?b0" "same_globals st s1"
      using that(2) by (simp_all add: page_row_inv_def s)
    let ?w = "if ty \<ge> 10 then ty - 10 else ty"
    have wf: "length (bPlayfield s1) = 180" "unat numberOfSprites \<le> length (object_list s1)"
      using inv(5) assms(1,2) by (simp_all add: same_globals_def)
    have bx: "unat bX \<le> 7" using inv(4) and_7_le by simp
    from DrawPlayfield_page_exact [OF wf inv(2) bx and_7_le, of ucFont ucSprites ucBigSprites bScrollX
           bScrollY y]
    obtain s2 where r: "?page (y, ty, bX, s1) = Some (y + 1, ?w + 1, bX, s2)"
      and g: "same_globals s1 s2" by blast
    have y': "unat (y + 1) = Suc i" using inv(1) that(1) assms(4) by (simp add: unat_word_ariths)
    have w10: "unat ?w < 10" using inv(3) by simp
    then have w1: "unat (?w + 1) = unat ?w + 1" by (simp add: unat_word_ariths)
    have next_row: "unat (if ?w + 1 \<ge> 10 then ?w + 1 - 10 else ?w + 1) = (?t0 + Suc i) mod 10"
      using next_row_mod [OF inv(3)] by (simp only: ty_wrap_unat [of "?w + 1"] w1) simp
    have "page_row_inv ?b0 ?t0 st (Suc i) (y + 1, ?w + 1, bX, s2)"
      using y' w1 w10 next_row inv(4) same_globals_trans [OF inv(5) g]
      by (simp add: page_row_inv_def)
    then show ?thesis using r s by blast
  qed
  from loop_times_indexed [of "page_row_inv ?b0 ?t0 st" "(0, drop_bit 3 bScrollY, ?b0, st)" p ?page,
         OF init pres]
  obtain s' where r: "loop_times p ?page (0, drop_bit 3 bScrollY, ?b0, st) = Some s'"
    and q: "page_row_inv ?b0 ?t0 st p s'" by blast
  obtain y ty bX st' where s': "s' = (y, ty, bX, st')" by (cases s') auto
  show ?thesis using r q unfolding s' by (auto simp add: page_row_inv_def)
qed


lemma tx_unwrapped: "unat (tx :: byte) \<le> 17 \<Longrightarrow> (if tx \<ge> 18 then tx - 18 else tx) = tx"
  by (simp add: word_le_nat_alt)

lemma playfield_index_nat: "c \<le> 17 \<Longrightarrow> r < 10 \<Longrightarrow> c + r * 18 < (180 :: nat)"
  by arith

lemma next_row_index:
  assumes "r < 10" "c \<le> 17"
  shows "(if c + r * 18 + 18 \<ge> 180 then c + r * 18 + 18 - 180 else c + r * 18 + 18) =
           c + ((r + 1) mod 10) * (18 :: nat)"
proof (cases "r = 9")
  case True
  then show ?thesis by simp
next
  case False
  then have "r + 1 < 10" using assms(1) by simp
  then have "(r + 1) mod 10 = r + 1" by simp
  then show ?thesis using assms \<open>r + 1 < 10\<close> by simp
qed

lemma copied_cell_bytes:
  assumes "length pf = 180" "unat ty < 10" "unat tx \<le> 17" "unat bX \<le> 8"
    and "d + (8 - unat bX) \<le> length buf"
  shows "\<exists>buf'. DrawPlayfield_copied_cell ucFont pf ty (tx, bX, d, buf) =
             Some (tx + 1, 0, d + (8 - unat bX), buf') \<and>
           length buf' = length buf \<and>
           (\<forall>k < 8 - unat bX. buf' ! (d + k) =
              ucFont (unat (pf ! (unat tx + unat ty * 18)) * 8 + unat bX + k)) \<and>
           (\<forall>j. j < d \<or> d + (8 - unat bX) \<le> j \<longrightarrow> buf' ! j = buf ! j)"
proof -
  have i: "unat tx + unat ty * 18 < length pf"
    using playfield_index [OF assms(3,2)] assms(1) by simp
  from memcpy_P_Some [OF assms(5), of ucFont "unat (pf ! (unat tx + unat ty * 18)) * 8 + unat bX"]
  obtain buf' where m: "memcpy_P buf d ucFont (unat (pf ! (unat tx + unat ty * 18)) * 8 + unat bX)
                          (8 - unat bX) = Some buf'"
    and len: "length buf' = length buf"
    and wr: "\<forall>k < 8 - unat bX. buf' ! (d + k) =
               ucFont (unat (pf ! (unat tx + unat ty * 18)) * 8 + unat bX + k)"
    and fr: "\<forall>j. j < d \<or> d + (8 - unat bX) \<le> j \<longrightarrow> buf' ! j = buf ! j" by blast
  have "DrawPlayfield_copied_cell ucFont pf ty (tx, bX, d, buf) =
          Some (tx + 1, 0, d + (8 - unat bX), buf')"
    using i m
    by (simp add: DrawPlayfield_copied_cell_def Let_def size_t_length [OF assms(4)]
          tx_unwrapped [OF assms(3)])
  then show ?thesis using len wr fr by blast
qed

lemma shifted_cell_bytes:
  assumes "length pf = 180" "unat ty < 10" "unat tx \<le> 17" "unat bX \<le> 8" "unat bYOff \<le> 8"
    and "d + (8 - unat bX) \<le> length buf"
  shows "\<exists>buf'. DrawPlayfield_shifted_cell ucFont pf ty bYOff (tx, bX, d, buf) =
             Some (tx + 1, 0, d + (8 - unat bX), buf') \<and>
           length buf' = length buf \<and>
           (\<forall>k < 8 - unat bX. buf' ! (d + k) =
              drop_bit (unat bYOff)
                (ucFont (unat (pf ! (unat tx + unat ty * 18)) * 8 + unat bX + k)) OR
              push_bit (8 - unat bYOff)
                (ucFont (unat (pf ! (unat tx + ((unat ty + 1) mod 10) * 18)) * 8 + unat bX + k))) \<and>
           (\<forall>j. j < d \<or> d + (8 - unat bX) \<le> j \<longrightarrow> buf' ! j = buf ! j)"
proof -
  let ?i = "unat tx + unat ty * 18"
  let ?j = "if ?i + 18 \<ge> 180 then ?i + 18 - 180 else ?i + 18"
  let ?i2 = "unat tx + ((unat ty + 1) mod 10) * 18"
  have nt: "\<not> 18 \<le> tx" using assms(3) by (simp add: word_le_nat_alt)
  have i: "?i < length pf" using playfield_index [OF assms(3,2)] assms(1) by simp
  then have j: "?j < length pf" using assms(1) by auto
  have n: "?j = ?i2" by (rule next_row_index [OF assms(2,3)])
  from DrawShiftedChar_loop_Some [OF assms(5,6), of ucFont "unat (pf ! ?i) * 8 + unat bX"
         "unat (pf ! ?j) * 8 + unat bX"]
  obtain buf' where m: "DrawShiftedChar ucFont (unat (pf ! ?i) * 8 + unat bX)
                          (unat (pf ! ?j) * 8 + unat bX) d bX bYOff buf = Some buf'"
    and len: "length buf' = length buf"
    and wr: "\<forall>k < 8 - unat bX. buf' ! (d + k) =
               drop_bit (unat bYOff) (ucFont (unat (pf ! ?i) * 8 + unat bX + k)) OR
               push_bit (8 - unat bYOff) (ucFont (unat (pf ! ?j) * 8 + unat bX + k))"
    and fr: "\<forall>j. j < d \<or> d + (8 - unat bX) \<le> j \<longrightarrow> buf' ! j = buf ! j"
    unfolding DrawShiftedChar_def by blast
  have "DrawPlayfield_shifted_cell ucFont pf ty bYOff (tx, bX, d, buf) =
          Some (tx + 1, 0, d + (8 - unat bX), buf')"
    using i j m nt by (auto simp add: DrawPlayfield_shifted_cell_def Let_def split: if_splits)
  then show ?thesis using len wr [unfolded n] fr by blast
qed

text \<open>
  C2, amended. For every \<open>bScrollY\<close> in 0..159 and every page \<open>p\<close> in 0..7: the pages
  before \<open>p\<close> run without a fault, \<open>y\<close> is \<open>p\<close> and \<open>bPlayfield\<close> is as it was; the tile
  row of page \<open>p\<close>, after its wrap, is \<open>r = ((bScrollY >> 3) + p) mod 10\<close>; a cell of that
  page at tile column \<open>tx \<le> 17\<close> reads \<open>bPlayfield[tx + r * 18]\<close> and, in the branch for a
  vertical offset, also \<open>bPlayfield[tx + ((r + 1) mod 10) * 18]\<close>, both indices below
  180, and what it writes are the font bytes of the tiles found there (copied, or
  composed by \<open>(top >> v) | (bottom << (8 - v))\<close>); page \<open>p\<close> and the whole call return.
  0..159 is the range where \<open>bScrollY >> 3\<close> is at most 19, which one subtraction of 10
  wraps.
\<close>

theorem DrawPlayfield_tile_row:
  assumes "length (bPlayfield st) = 180" "unat numberOfSprites \<le> length (object_list st)"
    and "unat bScrollY < 160" "p < 8"
  shows "\<exists>y ty st' r. r = (unat bScrollY div 8 + p) mod 10 \<and>
           loop_times p (DrawPlayfield_page ucFont ucSprites ucBigSprites bScrollX (bScrollY AND 7))
             (0, drop_bit 3 bScrollY, bScrollX AND 7, st) = Some (y, ty, bScrollX AND 7, st') \<and>
           unat y = p \<and> bPlayfield st' = bPlayfield st \<and>
           unat (if ty \<ge> 10 then ty - 10 else ty) = r \<and>
           (\<forall>tx bXOff d buf.
              unat tx \<le> 17 \<and> unat bXOff \<le> 7 \<and> d + (8 - unat bXOff) \<le> length buf \<longrightarrow>
              unat tx + r * 18 < 180 \<and> unat tx + ((r + 1) mod 10) * 18 < 180 \<and>
              (\<exists>buf'. DrawPlayfield_copied_cell ucFont (bPlayfield st')
                         (if ty \<ge> 10 then ty - 10 else ty) (tx, bXOff, d, buf) =
                       Some (tx + 1, 0, d + (8 - unat bXOff), buf') \<and>
                     (\<forall>k < 8 - unat bXOff. buf' ! (d + k) =
                        ucFont (unat (bPlayfield st' ! (unat tx + r * 18)) * 8 + unat bXOff + k))) \<and>
              (\<exists>buf'. DrawPlayfield_shifted_cell ucFont (bPlayfield st')
                         (if ty \<ge> 10 then ty - 10 else ty) (bScrollY AND 7) (tx, bXOff, d, buf) =
                       Some (tx + 1, 0, d + (8 - unat bXOff), buf') \<and>
                     (\<forall>k < 8 - unat bXOff. buf' ! (d + k) =
                        drop_bit (unat (bScrollY AND 7))
                          (ucFont (unat (bPlayfield st' ! (unat tx + r * 18)) * 8 +
                                   unat bXOff + k)) OR
                        push_bit (8 - unat (bScrollY AND 7))
                          (ucFont (unat (bPlayfield st' ! (unat tx + ((r + 1) mod 10) * 18)) * 8 +
                                   unat bXOff + k))))) \<and>
           (\<exists>s'. DrawPlayfield_page ucFont ucSprites ucBigSprites bScrollX (bScrollY AND 7)
                    (y, ty, bScrollX AND 7, st') = Some s') \<and>
           (\<exists>st''. DrawPlayfield ucFont ucSprites ucBigSprites bScrollX bScrollY st = Some st'')"
proof -
  let ?r = "(unat bScrollY div 8 + p) mod 10"
  let ?page = "DrawPlayfield_page ucFont ucSprites ucBigSprites bScrollX (bScrollY AND 7)"
  have p8: "p \<le> 8" using assms(4) by simp
  from DrawPlayfield_pages_prefix [OF assms(1,2,3) p8, of ucFont ucSprites ucBigSprites bScrollX]
  obtain y ty st' where run: "loop_times p ?page (0, drop_bit 3 bScrollY, bScrollX AND 7, st) =
        Some (y, ty, bScrollX AND 7, st')"
    and y: "unat y = p" and t19: "unat ty \<le> 19"
    and row: "unat (if ty \<ge> 10 then ty - 10 else ty) = ?r"
    and g: "same_globals st st'" by blast
  let ?w = "if ty \<ge> 10 then ty - 10 else ty"
  have pf: "bPlayfield st' = bPlayfield st" using g by (simp add: same_globals_def)
  have wf: "length (bPlayfield st') = 180" "unat numberOfSprites \<le> length (object_list st')"
    using g assms(1,2) by (simp_all add: same_globals_def)
  have w10: "unat ?w < 10" using row by simp
  have by8: "unat (bScrollY AND 7) \<le> 8" using and_7_le [of bScrollY] by simp
  have cells: "unat tx + ?r * 18 < 180 \<and> unat tx + ((?r + 1) mod 10) * 18 < 180 \<and>
      (\<exists>buf'. DrawPlayfield_copied_cell ucFont (bPlayfield st') ?w (tx, bXOff, d, buf) =
                 Some (tx + 1, 0, d + (8 - unat bXOff), buf') \<and>
               (\<forall>k < 8 - unat bXOff. buf' ! (d + k) =
                  ucFont (unat (bPlayfield st' ! (unat tx + ?r * 18)) * 8 + unat bXOff + k))) \<and>
      (\<exists>buf'. DrawPlayfield_shifted_cell ucFont (bPlayfield st') ?w (bScrollY AND 7)
                 (tx, bXOff, d, buf) = Some (tx + 1, 0, d + (8 - unat bXOff), buf') \<and>
               (\<forall>k < 8 - unat bXOff. buf' ! (d + k) =
                  drop_bit (unat (bScrollY AND 7))
                    (ucFont (unat (bPlayfield st' ! (unat tx + ?r * 18)) * 8 + unat bXOff + k)) OR
                  push_bit (8 - unat (bScrollY AND 7))
                    (ucFont (unat (bPlayfield st' ! (unat tx + ((?r + 1) mod 10) * 18)) * 8 +
                             unat bXOff + k))))"
    if h: "unat tx \<le> 17 \<and> unat bXOff \<le> 7 \<and> d + (8 - unat bXOff) \<le> length buf"
    for tx bXOff :: byte and d :: nat and buf :: "byte list"
  proof -
    have tx: "unat tx \<le> 17" and bx: "unat bXOff \<le> 8" and fit: "d + (8 - unat bXOff) \<le> length buf"
      using h by auto
    have r10: "?r < 10" "(?r + 1) mod 10 < 10" by simp_all
    have i1: "unat tx + ?r * 18 < 180" by (rule playfield_index_nat [OF tx r10(1)])
    have i2: "unat tx + ((?r + 1) mod 10) * 18 < 180" by (rule playfield_index_nat [OF tx r10(2)])
    from copied_cell_bytes [OF wf(1) w10 tx bx fit, of ucFont]
    have c: "\<exists>buf'. DrawPlayfield_copied_cell ucFont (bPlayfield st') ?w (tx, bXOff, d, buf) =
                 Some (tx + 1, 0, d + (8 - unat bXOff), buf') \<and>
               (\<forall>k < 8 - unat bXOff. buf' ! (d + k) =
                  ucFont (unat (bPlayfield st' ! (unat tx + ?r * 18)) * 8 + unat bXOff + k))"
      unfolding row by blast
    from shifted_cell_bytes [OF wf(1) w10 tx bx by8 fit, of ucFont]
    have s: "\<exists>buf'. DrawPlayfield_shifted_cell ucFont (bPlayfield st') ?w (bScrollY AND 7)
                 (tx, bXOff, d, buf) = Some (tx + 1, 0, d + (8 - unat bXOff), buf') \<and>
               (\<forall>k < 8 - unat bXOff. buf' ! (d + k) =
                  drop_bit (unat (bScrollY AND 7))
                    (ucFont (unat (bPlayfield st' ! (unat tx + ?r * 18)) * 8 + unat bXOff + k)) OR
                  push_bit (8 - unat (bScrollY AND 7))
                    (ucFont (unat (bPlayfield st' ! (unat tx + ((?r + 1) mod 10) * 18)) * 8 +
                             unat bXOff + k)))"
      unfolding row by blast
    show ?thesis using i1 i2 c s by blast
  qed
  from DrawPlayfield_page_exact [OF wf t19 and_7_le and_7_le, of ucFont ucSprites ucBigSprites bScrollX
         bScrollY y]
  have page: "\<exists>s'. ?page (y, ty, bScrollX AND 7, st') = Some s'" by blast
  from DrawPlayfield_Some [OF assms(1,2,3), of ucFont ucSprites ucBigSprites bScrollX]
  have whole: "\<exists>st''. DrawPlayfield ucFont ucSprites ucBigSprites bScrollX bScrollY st = Some st''"
    by blast
  show ?thesis
    apply (rule exI [of _ y], rule exI [of _ ty], rule exI [of _ st'], rule exI [of _ ?r])
    apply (intro conjI)
           apply (rule refl)
          apply (rule run)
         apply (rule y)
        apply (rule pf)
       apply (rule row)
      apply (intro allI impI)
      apply (rule cells, assumption)
     apply (rule page)
    apply (rule whole)
    done
qed

theorem DrawPlayfield_tile_row_witness:
  "\<exists>y ty st'.
     loop_times 7 (DrawPlayfield_page (flash ucFont_demo) (flash ucSprites_demo)
                     (flash ucBigSprites_demo) 0 (79 AND 7))
       (0, drop_bit 3 79, 0 AND 7, demo_state) = Some (y, ty, 0 AND 7, st') \<and>
     unat y = 7 \<and> unat (if ty \<ge> 10 then ty - 10 else ty) = 6 \<and>
     (\<exists>buf'. DrawPlayfield_copied_cell (flash ucFont_demo) (bPlayfield st')
                (if ty \<ge> 10 then ty - 10 else ty) (0, 0, 0, replicate 128 0) =
              Some (0 + 1, 0, 0 + (8 - unat (0 :: byte)), buf') \<and>
            (\<forall>k < 8. buf' ! k =
               flash ucFont_demo (unat (bPlayfield st' ! (6 * 18)) * 8 + k)))"
proof -
  have h: "unat (79 :: byte) < 160" "(7 :: nat) < 8" by simp_all
  from DrawPlayfield_tile_row [OF demo_state_playfield demo_state_sprites h,
         of "flash ucFont_demo" "flash ucSprites_demo" "flash ucBigSprites_demo" 0]
  obtain y ty st' r where r: "r = (unat (79 :: byte) div 8 + 7) mod 10"
    and run: "loop_times 7 (DrawPlayfield_page (flash ucFont_demo) (flash ucSprites_demo)
                     (flash ucBigSprites_demo) 0 (79 AND 7))
       (0, drop_bit 3 79, 0 AND 7, demo_state) = Some (y, ty, 0 AND 7, st')"
    and y: "unat y = 7" and row: "unat (if ty \<ge> 10 then ty - 10 else ty) = r"
    and cells: "\<forall>tx bXOff d buf.
              unat tx \<le> 17 \<and> unat bXOff \<le> 7 \<and> d + (8 - unat bXOff) \<le> length buf \<longrightarrow>
              unat tx + r * 18 < 180 \<and> unat tx + ((r + 1) mod 10) * 18 < 180 \<and>
              (\<exists>buf'. DrawPlayfield_copied_cell (flash ucFont_demo) (bPlayfield st')
                         (if ty \<ge> 10 then ty - 10 else ty) (tx, bXOff, d, buf) =
                       Some (tx + 1, 0, d + (8 - unat bXOff), buf') \<and>
                     (\<forall>k < 8 - unat bXOff. buf' ! (d + k) =
                        flash ucFont_demo
                          (unat (bPlayfield st' ! (unat tx + r * 18)) * 8 + unat bXOff + k)))"
    by blast
  have r6: "r = 6" using r by simp
  have "unat (0 :: byte) \<le> 17 \<and> unat (0 :: byte) \<le> 7 \<and>
        0 + (8 - unat (0 :: byte)) \<le> length (replicate 128 (0 :: byte))" by simp
  from cells [rule_format, OF this]
  have "\<exists>buf'. DrawPlayfield_copied_cell (flash ucFont_demo) (bPlayfield st')
                (if ty \<ge> 10 then ty - 10 else ty) (0, 0, 0, replicate 128 0) =
              Some (0 + 1, 0, 0 + (8 - unat (0 :: byte)), buf') \<and>
            (\<forall>k < 8. buf' ! k =
               flash ucFont_demo (unat (bPlayfield st' ! (6 * 18)) * 8 + k))"
    unfolding r6 by simp
  then show ?thesis using run y row r6 by blast
qed

lemma shifted_cell_unshifted:
  assumes "length pf = 180" "unat bX \<le> 8"
  shows "DrawPlayfield_shifted_cell ucFont pf ty 0 (tx, bX, d, buf) =
         DrawPlayfield_copied_cell ucFont pf ty (tx, bX, d, buf)"
  using assms(1)
  by (auto simp add: DrawPlayfield_shifted_cell_def DrawPlayfield_copied_cell_def Let_def
      DrawShiftedChar_def DrawShiftedChar_loop_unshifted size_t_length [OF assms(2)])

lemma copied_cell_result:
  "DrawPlayfield_copied_cell ucFont pf ty (tx, bX, d, buf) = Some (tx', bX', d', buf') \<Longrightarrow>
     bX' = 0 \<and> d' = d + (8 - unat bX)"
  by (auto simp add: DrawPlayfield_copied_cell_def Let_def split: if_splits option.splits)

lemma shifted_cells_unshifted:
  assumes "length pf = 180" "unat bX \<le> 8"
  shows "loop_times n (DrawPlayfield_shifted_cell ucFont pf ty 0) (tx, bX, d, buf) =
         loop_times n (DrawPlayfield_copied_cell ucFont pf ty) (tx, bX, d, buf)"
  using assms(2)
proof (induction n arbitrary: tx bX d buf)
  case 0
  then show ?case by simp
next
  case (Suc n)
  have eq: "DrawPlayfield_shifted_cell ucFont pf ty 0 (tx, bX, d, buf) =
            DrawPlayfield_copied_cell ucFont pf ty (tx, bX, d, buf)"
    by (rule shifted_cell_unshifted [OF assms(1) Suc.prems])
  show ?case
  proof (cases "DrawPlayfield_copied_cell ucFont pf ty (tx, bX, d, buf)")
    case None
    then show ?thesis using eq by simp
  next
    case (Some s')
    obtain tx' bX' d' buf' where s': "s' = (tx', bX', d', buf')" by (cases s') auto
    then have "bX' = 0" using copied_cell_result Some by blast
    then have "loop_times n (DrawPlayfield_shifted_cell ucFont pf ty 0) s' =
               loop_times n (DrawPlayfield_copied_cell ucFont pf ty) s'"
      using Suc.IH [of bX' tx' d' buf'] s' by simp
    then show ?thesis using eq Some by simp
  qed
qed

lemma copied_cells_cursor:
  "loop_times n (DrawPlayfield_copied_cell ucFont pf ty) (tx, bX, d, buf) = Some (tx', bX', d', buf')
     \<Longrightarrow> 0 < n \<Longrightarrow> unat bX \<le> 8 \<Longrightarrow> bX' = 0 \<and> d' = d + 8 * n - unat bX"
proof (induction n arbitrary: tx bX d buf)
  case 0
  then show ?case by simp
next
  case (Suc n)
  from Suc.prems(1) obtain s1 where
    c: "DrawPlayfield_copied_cell ucFont pf ty (tx, bX, d, buf) = Some s1"
    and r: "loop_times n (DrawPlayfield_copied_cell ucFont pf ty) s1 = Some (tx', bX', d', buf')"
    by (auto split: option.splits)
  obtain tx1 bX1 d1 buf1 where s1: "s1 = (tx1, bX1, d1, buf1)" by (cases s1) auto
  have one: "bX1 = 0" "d1 = d + (8 - unat bX)" using copied_cell_result c s1 by blast+
  show ?case
  proof (cases n)
    case 0
    then show ?thesis using r s1 one Suc.prems(3) by simp
  next
    case (Suc m)
    then have "bX' = 0 \<and> d' = d1 + 8 * n - unat bX1"
      using Suc.IH [of tx1 bX1 d1 buf1] r s1 one by simp
    then show ?thesis using one Suc.prems(3) by simp
  qed
qed

lemma shifted_partial_unshifted:
  assumes "length pf = 180" "unat (b0 :: byte) \<le> 7"
  shows "DrawPlayfield_shifted_partial ucFont pf ty 0 tx bX (128 - unat b0) buf =
         DrawPlayfield_copied_partial ucFont pf ty tx bX (128 - unat b0) buf"
  using assms(1)
  by (auto simp add: DrawPlayfield_shifted_partial_def DrawPlayfield_copied_partial_def Let_def
      DrawShiftedChar_def DrawShiftedChar_loop_unshifted cursor_to_offset [OF assms(2)]
      offset_complement [OF assms(2)])

text \<open>
  C6. For a vertical offset of 0 the direct copy is the compositor at \<open>bYOff = 0\<close>:
  \<open>memcpy_P(d, s, 8 - bXOff)\<close> gives the buffer DrawShiftedChar gives with \<open>bYOff = 0\<close>
  (whatever the bottom source, which the 8-bit shift by 8 clears), and the whole row of
  the copy branch, partial character included, is the row of the shifted branch run
  with \<open>bYOff = 0\<close> on the same playfield and font. On a tile row below 10 and a
  128-byte buffer that row is produced.
\<close>

theorem DrawPlayfield_copy_is_unshifted_compositor:
  assumes "length pf = 180" "unat bXOff \<le> 7"
  shows "memcpy_P bTemp d ucFont s (unat (8 - ucast bXOff :: 16 word)) =
           DrawShiftedChar ucFont s sNext d bXOff 0 bTemp \<and>
         DrawPlayfield_copied_row ucFont pf ty tx bXOff bTemp =
           DrawPlayfield_shifted_row ucFont pf ty 0 tx bXOff bTemp \<and>
         (unat ty < 10 \<and> unat tx \<le> 35 \<and> length bTemp = 128 \<longrightarrow>
            (\<exists>buf'. DrawPlayfield_copied_row ucFont pf ty tx bXOff bTemp = Some (bXOff, buf') \<and>
               length buf' = 128))"
proof (intro conjI impI)
  have b8: "unat bXOff \<le> 8" using assms(2) by simp
  show "memcpy_P bTemp d ucFont s (unat (8 - ucast bXOff :: 16 word)) =
           DrawShiftedChar ucFont s sNext d bXOff 0 bTemp"
    by (simp add: DrawShiftedChar_def DrawShiftedChar_loop_unshifted size_t_length [OF b8])
  have cells: "loop_times 16 (DrawPlayfield_shifted_cell ucFont pf ty 0) (tx, bXOff, 0, bTemp) =
               loop_times 16 (DrawPlayfield_copied_cell ucFont pf ty) (tx, bXOff, 0, bTemp)"
    by (rule shifted_cells_unshifted [OF assms(1) b8])
  show "DrawPlayfield_copied_row ucFont pf ty tx bXOff bTemp =
           DrawPlayfield_shifted_row ucFont pf ty 0 tx bXOff bTemp"
  proof (cases "loop_times 16 (DrawPlayfield_copied_cell ucFont pf ty) (tx, bXOff, 0, bTemp)")
    case None
    then show ?thesis
      using cells by (simp add: DrawPlayfield_copied_row_def DrawPlayfield_shifted_row_def)
  next
    case (Some s')
    obtain tx' bX' d' buf' where s': "s' = (tx', bX', d', buf')" by (cases s') auto
    have "bX' = 0 \<and> d' = 0 + 8 * 16 - unat bXOff"
      by (rule copied_cells_cursor [OF _ _ b8]) (use Some s' in simp_all)
    then have d': "d' = 128 - unat bXOff" by simp
    show ?thesis
      using cells Some s' d' shifted_partial_unshifted [OF assms]
      by (simp add: DrawPlayfield_copied_row_def DrawPlayfield_shifted_row_def)
  qed
next
  assume "unat ty < 10 \<and> unat tx \<le> 35 \<and> length bTemp = 128"
  then show "\<exists>buf'. DrawPlayfield_copied_row ucFont pf ty tx bXOff bTemp = Some (bXOff, buf') \<and>
               length buf' = 128"
    using copied_row_Some [OF assms(1) _ _ assms(2)] by blast
qed

theorem DrawPlayfield_copy_is_unshifted_compositor_witness:
  "DrawPlayfield_copied_row (flash ucFont_demo) (bPlayfield demo_state) 0 0 3 (replicate 128 0) =
     DrawPlayfield_shifted_row (flash ucFont_demo) (bPlayfield demo_state) 0 0 0 3 (replicate 128 0) \<and>
   (\<exists>buf'. DrawPlayfield_copied_row (flash ucFont_demo) (bPlayfield demo_state) 0 0 3
              (replicate 128 0) = Some (3, buf') \<and> length buf' = 128)"
proof -
  have b: "unat (3 :: byte) \<le> 7" by simp
  have h: "unat (0 :: byte) < 10 \<and> unat (0 :: byte) \<le> 35 \<and> length (replicate 128 (0 :: byte)) = 128"
    by simp
  from DrawPlayfield_copy_is_unshifted_compositor [OF demo_state_playfield b,
         of "replicate 128 0" 0 "flash ucFont_demo" 0 0 0 0] h
  show ?thesis by blast
qed

















section \<open>Properties of adjustPlayField and of DrawPlayfield in part_001\<close>

lemma memcpy_P_one: "d < length buf \<Longrightarrow> memcpy_P buf d tbl s 1 = Some (buf[d := tbl s])"
  by (simp add: pgm_read_byte_def)

lemma adjustPlayField_step_inv:
  assumes "i < 18" "d1 + 18 \<le> length pf" "d2 + 18 \<le> length pf"
    and "d1 + 18 \<le> d2 \<or> d2 + 18 \<le> d1"
    and "adjust_inv tileMap d1 r1 d2 r2 pf i s"
  shows "\<exists>s'. adjustPlayField_step tileMap d1 r1 d2 r2 s = Some s' \<and>
           adjust_inv tileMap d1 r1 d2 r2 pf (Suc i) s'"
proof -
  obtain x1 pf' where s: "s = (x1, pf')" by (cases s) auto
  have inv: "x1 = i" "length pf' = length pf"
    "\<forall>j. pf' ! j =
        (if d1 \<le> j \<and> j < d1 + i then tileMap (r1 * 18 + (j - d1))
         else if d2 \<le> j \<and> j < d2 + i then tileMap (r2 * 18 + (j - d2))
         else pf ! j)"
    using assms(5) by (simp_all add: adjust_inv_def s)
  let ?p1 = "pf'[d1 + i := tileMap (r1 * 18 + i)]"
  let ?p2 = "?p1[d2 + i := tileMap (r2 * 18 + i)]"
  have in1: "d1 + i < length pf'" and in2: "d2 + i < length ?p1"
    using assms(1,2,3) inv(2) by simp_all
  have run: "adjustPlayField_step tileMap d1 r1 d2 r2 s = Some (Suc i, ?p2)"
    using memcpy_P_one [OF in1] memcpy_P_one [OF in2]
    by (simp add: adjustPlayField_step_def s inv(1))
  have "?p2 ! j =
        (if d1 \<le> j \<and> j < d1 + Suc i then tileMap (r1 * 18 + (j - d1))
         else if d2 \<le> j \<and> j < d2 + Suc i then tileMap (r2 * 18 + (j - d2))
         else pf ! j)" for j
  proof -
    consider "j = d2 + i" | "j = d1 + i" "j \<noteq> d2 + i" | "j \<noteq> d1 + i" "j \<noteq> d2 + i" by blast
    then show ?thesis
    proof cases
      case 1
      then show ?thesis using in2 assms(1,4) by auto
    next
      case 2
      then show ?thesis using in1 assms(1,4) by auto
    next
      case 3
      then have "?p2 ! j = pf' ! j" by simp
      then show ?thesis using inv(3) 3 by (auto simp add: less_Suc_eq)
    qed
  qed
  then have "adjust_inv tileMap d1 r1 d2 r2 pf (Suc i) (Suc i, ?p2)"
    using inv(2) by (simp add: adjust_inv_def)
  then show ?thesis using run by blast
qed

lemma rows_apart_linear:
  "(m :: nat) < 10 \<Longrightarrow> n < 10 \<Longrightarrow> m \<noteq> n \<Longrightarrow>
     m * 18 + 18 \<le> 180 \<and> n * 18 + 18 \<le> 180 \<and> (m * 18 + 18 \<le> n * 18 \<or> n * 18 + 18 \<le> m * 18)"
  by (cases "m < n") simp_all

lemma shifted_row_differs: "(r + 8) mod 10 \<noteq> (r :: nat) mod 10"
proof -
  define n where "n = r mod 10"
  have n: "n < 10" by (simp add: n_def)
  have "(r + 8) mod 10 = (n + 8) mod 10" by (simp add: n_def mod_add_left_eq)
  also have "\<dots> = (if n < 2 then n + 8 else n - 2)" using n by (simp add: mod_if)
  also have "\<dots> \<noteq> n" using n by auto
  finally show ?thesis by (simp add: n_def)
qed

lemma playfield_rows_apart:
  "((r + 8) * 18) mod (10 * 18) + 18 \<le> 180 \<and> (r * 18) mod (10 * 18) + 18 \<le> (180 :: nat) \<and>
   (((r + 8) * 18) mod (10 * 18) + 18 \<le> (r * 18) mod (10 * 18) \<or>
    (r * 18) mod (10 * 18) + 18 \<le> ((r + 8) * 18) mod (10 * 18))"
proof -
  have a: "((r + 8) * 18) mod (10 * 18) = ((r + 8) mod 10) * 18" by (rule mult_mod_left [symmetric])
  have b: "(r * 18) mod (10 * 18) = (r mod 10) * 18" by (rule mult_mod_left [symmetric])
  show ?thesis unfolding a b by (rule rows_apart_linear) (use shifted_row_differs in simp_all)
qed


lemma adjustPlayField_Some:
  assumes "length (bPlayfield st) = 180"
  shows "\<exists>pf'. adjustPlayField tileMap st = Some (st\<lparr>bPlayfield := pf'\<rparr>) \<and> length pf' = 180 \<and>
           (\<forall>j. pf' ! j =
              (if ((currentRow st + 8) * 18) mod 180 \<le> j \<and> j < ((currentRow st + 8) * 18) mod 180 + 18
               then tileMap (((currentRow st + 8) mod 29) * 18 + (j - ((currentRow st + 8) * 18) mod 180))
               else if (currentRow st * 18) mod 180 \<le> j \<and> j < (currentRow st * 18) mod 180 + 18
               then tileMap ((currentRow st mod 29) * 18 + (j - (currentRow st * 18) mod 180))
               else bPlayfield st ! j))"
proof -
  let ?r = "currentRow st"
  let ?d1 = "((?r + 8) * 18) mod 180"
  let ?d2 = "(?r * 18) mod 180"
  let ?r1 = "(?r + 8) mod 29"
  let ?r2 = "?r mod 29"
  let ?pf = "bPlayfield st"
  let ?step = "adjustPlayField_step tileMap ?d1 ?r1 ?d2 ?r2"
  have fit: "?d1 + 18 \<le> length ?pf" "?d2 + 18 \<le> length ?pf" "?d1 + 18 \<le> ?d2 \<or> ?d2 + 18 \<le> ?d1"
    using playfield_rows_apart [of ?r] assms by simp_all
  have init: "adjust_inv tileMap ?d1 ?r1 ?d2 ?r2 ?pf 0 (0, ?pf)" by (auto simp add: adjust_inv_def)
  from loop_times_indexed [of "adjust_inv tileMap ?d1 ?r1 ?d2 ?r2 ?pf" "(0, ?pf)" 18 ?step, OF init
         adjustPlayField_step_inv [OF _ fit]]
  obtain s' where r: "loop_times 18 ?step (0, ?pf) = Some s'"
    and p: "adjust_inv tileMap ?d1 ?r1 ?d2 ?r2 ?pf 18 s'" by blast
  obtain x1 pf' where s': "s' = (x1, pf')" by (cases s') auto
  have "adjustPlayField tileMap st = Some (st\<lparr>bPlayfield := pf'\<rparr>)"
    using r s' by (simp add: adjustPlayField_def currentRow_def Let_def)
  moreover have "length pf' = 180" using p s' assms by (simp add: adjust_inv_def)
  moreover have "\<forall>j. pf' ! j =
              (if ?d1 \<le> j \<and> j < ?d1 + 18 then tileMap (?r1 * 18 + (j - ?d1))
               else if ?d2 \<le> j \<and> j < ?d2 + 18 then tileMap (?r2 * 18 + (j - ?d2))
               else ?pf ! j)"
    using p s' by (simp add: adjust_inv_def)
  ultimately show ?thesis by blast
qed

lemma part001_index: "(i :: nat) mod (10 * 18) < 180"
  by simp

lemma part001_copied_cell_step:
  assumes "length pf = 180" "unat tx \<le> 35" "bX \<le> 8" "d + (8 - bX) \<le> length buf"
  shows "\<exists>tx' buf'. DrawPlayfield_part001_copied_cell ucTiles pf ty (tx, bX, d, buf) =
             Some (tx', 0, d + (8 - bX), buf') \<and> unat tx' \<le> 35 \<and> length buf' = length buf"
proof -
  let ?tx = "if tx \<ge> 18 then tx - 18 else tx"
  let ?c = "(unat ?tx + ty * 18) mod (10 * 18)"
  have w: "unat ?tx \<le> 17" using tx_wrap [OF assms(2)] .
  have i: "?c < length pf" using assms(1) part001_index by simp
  from memcpy_P_Some [OF assms(4), of ucTiles "unat (pf ! ?c) * 8 + bX"]
  obtain buf' where m: "memcpy_P buf d ucTiles (unat (pf ! ?c) * 8 + bX) (8 - bX) = Some buf'"
    and len: "length buf' = length buf" by blast
  have "DrawPlayfield_part001_copied_cell ucTiles pf ty (tx, bX, d, buf) =
          Some (?tx + 1, 0, d + (8 - bX), buf')"
    using i m by (simp add: DrawPlayfield_part001_copied_cell_def Let_def)
  then show ?thesis using len tx_next [OF w] by blast
qed

lemma unat_of_small: "n \<le> 8 \<Longrightarrow> unat (of_nat n :: byte) = n"
  by (simp add: unat_of_nat)

lemma part001_shifted_cell_step:
  assumes "length pf = 180" "unat tx \<le> 35" "bX \<le> 8" "bYOff \<le> 8"
    and "d + (8 - bX) \<le> length buf"
  shows "\<exists>tx' buf'. DrawPlayfield_part001_shifted_cell ucTiles pf ty bYOff (tx, bX, d, buf) =
             Some (tx', 0, d + (8 - bX), buf') \<and> unat tx' \<le> 35 \<and> length buf' = length buf"
proof -
  let ?tx = "if tx \<ge> 18 then tx - 18 else tx"
  let ?i = "unat ?tx + ty * 18"
  let ?i2 = "if ?i + 18 \<ge> 10 * 18 then ?i + 18 - 10 * 18 else ?i + 18"
  let ?c = "?i mod (10 * 18)"
  let ?c2 = "?i2 mod (10 * 18)"
  have w: "unat ?tx \<le> 17" using tx_wrap [OF assms(2)] .
  have i: "?c < length pf" "?c2 < length pf" using assms(1) part001_index by simp_all
  have by8: "unat (of_nat bYOff :: byte) \<le> 8" using assms(4) by (simp add: unat_of_small)
  have fit: "d + (8 - unat (of_nat bX :: byte)) \<le> length buf"
    using assms(3,5) by (simp add: unat_of_small)
  from DrawShiftedChar_loop_Some [OF by8 fit, of ucTiles "unat (pf ! ?c) * 8 + bX"
         "unat (pf ! ?c2) * 8 + bX"]
  obtain buf' where m: "DrawShiftedChar ucTiles (unat (pf ! ?c) * 8 + bX) (unat (pf ! ?c2) * 8 + bX) d
                          (of_nat bX) (of_nat bYOff) buf = Some buf'"
    and len: "length buf' = length buf" unfolding DrawShiftedChar_def by blast
  have "DrawPlayfield_part001_shifted_cell ucTiles pf ty bYOff (tx, bX, d, buf) =
          Some (?tx + 1, 0, d + (8 - bX), buf')"
    using i m by (simp add: DrawPlayfield_part001_shifted_cell_def Let_def)
  then show ?thesis using len tx_next [OF w] by blast
qed

lemma cells_16_part001:
  assumes step: "\<And>tx bX d buf. unat tx \<le> 35 \<Longrightarrow> bX \<le> 8 \<Longrightarrow> d + (8 - bX) \<le> length buf \<Longrightarrow>
             \<exists>tx' buf'. cell (tx, bX, d, buf) = Some (tx', 0, d + (8 - bX), buf') \<and>
               unat tx' \<le> 35 \<and> length buf' = length buf"
    and "unat (tx :: byte) \<le> 35" "(b0 :: nat) \<le> 7" "length (buf :: byte list) = 128"
  shows "\<exists>tx' buf'. loop_times 16 cell (tx, b0, 0, buf) = Some (tx', 0, 128 - b0, buf') \<and>
           unat tx' \<le> 35 \<and> length buf' = 128"
proof -
  have init: "cells_inv_part001 b0 0 (tx, b0, 0, buf)"
    using assms(2,4) by (simp add: cells_inv_part001_def)
  have pres: "\<exists>s'. cell s = Some s' \<and> cells_inv_part001 b0 (Suc i) s'"
    if "i < 16" "cells_inv_part001 b0 i s" for i s
  proof -
    obtain tx1 bX d b1 where s: "s = (tx1, bX, d, b1)" by (cases s) auto
    have inv: "unat tx1 \<le> 35" "length b1 = 128"
      "if i = 0 then bX = b0 \<and> d = 0 else bX = 0 \<and> d = 8 * i - b0"
      using that(2) by (simp_all add: cells_inv_part001_def s)
    have bx: "bX \<le> 8" using inv(3) assms(3) by (auto split: if_splits)
    have fit: "d + (8 - bX) \<le> length b1"
      using inv(2,3) that(1) assms(3) by (auto split: if_splits)
    from step [OF inv(1) bx fit]
    obtain tx' buf' where r: "cell (tx1, bX, d, b1) = Some (tx', 0, d + (8 - bX), buf')"
      and t: "unat tx' \<le> 35" and l: "length buf' = length b1" by blast
    have "d + (8 - bX) = 8 * Suc i - b0"
      using inv(3) assms(3) by (auto split: if_splits)
    then have "cells_inv_part001 b0 (Suc i) (tx', 0, d + (8 - bX), buf')"
      using t l inv(2) by (simp add: cells_inv_part001_def)
    then show ?thesis using r s by blast
  qed
  from loop_times_indexed [of "cells_inv_part001 b0" "(tx, b0, 0, buf)" 16 cell, OF init pres]
  obtain s' where r: "loop_times 16 cell (tx, b0, 0, buf) = Some s'"
    and p: "cells_inv_part001 b0 16 s'" by blast
  obtain tx' bX d buf' where s': "s' = (tx', bX, d, buf')" by (cases s') auto
  then have "unat tx' \<le> 35" "length buf' = 128" "bX = 0" "d = 128 - b0"
    using p by (simp_all add: cells_inv_part001_def)
  then show ?thesis using r s' by blast
qed

lemma tx_start_part001: "unat (drop_bit 3 (bScrollX :: byte) + 1) \<le> 35"
proof -
  have "unat (drop_bit 3 bScrollX) = unat bScrollX div 8" by (simp add: drop_bit_eq_div unat_div)
  moreover have "unat bScrollX < 256" using unsigned_less [of bScrollX] by simp
  ultimately have "unat (drop_bit 3 bScrollX) \<le> 31" by simp
  then show ?thesis by (simp add: unat_word_ariths)
qed

lemma DrawPlayfield_part001_page_Some:
  assumes "length (bPlayfield st) = 180" "bX \<le> 7" "bYOff \<le> 7"
  shows "\<exists>ty' bX' st'. DrawPlayfield_part001_page ucTiles bScrollX bYOff (y, ty, bX, st) =
             Some (y + 1, ty', bX', st') \<and> bX' \<le> 7 \<and> same_globals st st'"
proof -
  let ?ty = "if ty \<ge> 10 then ty - 10 else ty"
  let ?tx = "drop_bit 3 bScrollX + 1"
  let ?cells = "if bYOff \<noteq> 0
                then loop_times 16 (DrawPlayfield_part001_shifted_cell ucTiles (bPlayfield st) ?ty bYOff)
                       (?tx, bX, 0, replicate 128 0)
                else loop_times 16 (DrawPlayfield_part001_copied_cell ucTiles (bPlayfield st) ?ty)
                       (?tx, bX, 0, replicate 128 0)"
  have by8: "bYOff \<le> 8" using assms(3) by simp
  have l0: "length (replicate 128 (0 :: byte)) = 128" by simp
  have c: "\<exists>tx' buf'. loop_times 16 (DrawPlayfield_part001_copied_cell ucTiles (bPlayfield st) ?ty)
             (?tx, bX, 0, replicate 128 0) = Some (tx', 0, 128 - bX, buf') \<and>
             unat tx' \<le> 35 \<and> length buf' = 128"
    by (rule cells_16_part001 [OF part001_copied_cell_step [OF assms(1)] tx_start_part001 assms(2) l0])
  have s: "\<exists>tx' buf'. loop_times 16 (DrawPlayfield_part001_shifted_cell ucTiles (bPlayfield st) ?ty bYOff)
             (?tx, bX, 0, replicate 128 0) = Some (tx', 0, 128 - bX, buf') \<and>
             unat tx' \<le> 35 \<and> length buf' = 128"
  proof (rule cells_16_part001 [OF _ tx_start_part001 assms(2) l0])
    fix tx :: byte and bX d :: nat and buf :: "byte list"
    assume "unat tx \<le> 35" "bX \<le> 8" "d + (8 - bX) \<le> length buf"
    then show "\<exists>tx' buf'. DrawPlayfield_part001_shifted_cell ucTiles (bPlayfield st) ?ty bYOff
                 (tx, bX, d, buf) = Some (tx', 0, d + (8 - bX), buf') \<and>
               unat tx' \<le> 35 \<and> length buf' = length buf"
      using part001_shifted_cell_step [OF assms(1) _ _ by8] by blast
  qed
  obtain tx' b1 where cells: "?cells = Some (tx', 0, 128 - bX, b1)" and l1: "length b1 = 128"
    using c s by (cases "bYOff = 0") auto
  obtain s1 where s1: "oledSetPosition 0 (ucast y) st = Some s1" "same_globals st s1"
    using oledSetPosition_frame by blast
  obtain s2 where s2: "I2CWriteData b1 128 s1 = Some s2" "same_globals s1 s2"
    using I2CWriteData_frame [OF l1] by blast
  have "DrawPlayfield_part001_page ucTiles bScrollX bYOff (y, ty, bX, st) =
          Some (y + 1, ?ty + 1, 0, s2)"
    using cells s1(1) s2(1) by (simp add: DrawPlayfield_part001_page_def Let_def)
  moreover have "same_globals st s2" using s1(2) s2(2) by (simp add: same_globals_def)
  ultimately show ?thesis by blast
qed

lemma DrawPlayfield_part001_Some:
  assumes "length (bPlayfield st) = 180"
  shows "\<exists>st'. DrawPlayfield_part001 ucTiles tileMap bScrollX bScrollY st = Some st' \<and>
           object_list st' = object_list st \<and>
           iScrollX st' = iScrollX st \<and> iScrollY st' = iScrollY st \<and>
           length (bPlayfield st') = 180 \<and>
           (\<forall>j. bPlayfield st' ! j =
              (if ((currentRow st + 8) * 18) mod 180 \<le> j \<and> j < ((currentRow st + 8) * 18) mod 180 + 18
               then tileMap (((currentRow st + 8) mod 29) * 18 + (j - ((currentRow st + 8) * 18) mod 180))
               else if (currentRow st * 18) mod 180 \<le> j \<and> j < (currentRow st * 18) mod 180 + 18
               then tileMap ((currentRow st mod 29) * 18 + (j - (currentRow st * 18) mod 180))
               else bPlayfield st ! j))"
proof -
  from adjustPlayField_Some [OF assms, of tileMap]
  obtain pf' where a: "adjustPlayField tileMap st = Some (st\<lparr>bPlayfield := pf'\<rparr>)"
    and l: "length pf' = 180"
    and c: "\<forall>j. pf' ! j =
              (if ((currentRow st + 8) * 18) mod 180 \<le> j \<and> j < ((currentRow st + 8) * 18) mod 180 + 18
               then tileMap (((currentRow st + 8) mod 29) * 18 + (j - ((currentRow st + 8) * 18) mod 180))
               else if (currentRow st * 18) mod 180 \<le> j \<and> j < (currentRow st * 18) mod 180 + 18
               then tileMap ((currentRow st mod 29) * 18 + (j - (currentRow st * 18) mod 180))
               else bPlayfield st ! j)"
    by blast
  let ?st1 = "st\<lparr>bPlayfield := pf'\<rparr>"
  let ?b0 = "unat (bScrollX AND 7)"
  let ?bY = "unat (bScrollY AND 7)"
  let ?ty = "unat (drop_bit 3 bScrollY) + 1"
  let ?page = "DrawPlayfield_part001_page ucTiles bScrollX ?bY"
  have init: "page_inv_part001 ?st1 (0, ?ty, ?b0, ?st1)"
    using and_7_le by (simp add: page_inv_part001_def same_globals_refl)
  have pres: "\<exists>s'. ?page s = Some s' \<and> page_inv_part001 ?st1 s'" if "page_inv_part001 ?st1 s" for s
  proof -
    obtain y ty bX s1 where s: "s = (y, ty, bX, s1)" by (cases s) auto
    have inv: "bX \<le> 7" "same_globals ?st1 s1"
      using that by (simp_all add: page_inv_part001_def s)
    have wf: "length (bPlayfield s1) = 180" using inv(2) l by (simp add: same_globals_def)
    from DrawPlayfield_part001_page_Some [OF wf inv(1) and_7_le, of ucTiles bScrollX bScrollY y ty]
    obtain ty' bX' s2 where r: "?page (y, ty, bX, s1) = Some (y + 1, ty', bX', s2)"
      and t: "bX' \<le> 7" and g: "same_globals s1 s2" by blast
    have "page_inv_part001 ?st1 (y + 1, ty', bX', s2)"
      using t same_globals_trans [OF inv(2) g] by (simp add: page_inv_part001_def)
    then show ?thesis using r s by blast
  qed
  from loop_times_indexed [of "\<lambda>i. page_inv_part001 ?st1" "(0, ?ty, ?b0, ?st1)" 8 ?page] init pres
  obtain s' where r: "loop_times 8 ?page (0, ?ty, ?b0, ?st1) = Some s'"
    and p: "page_inv_part001 ?st1 s'" by blast
  obtain y ty bX st' where s': "s' = (y, ty, bX, st')" by (cases s') auto
  then have g: "same_globals ?st1 st'" using p by (simp add: page_inv_part001_def)
  have run: "DrawPlayfield_part001 ucTiles tileMap bScrollX bScrollY st = Some st'"
    using a r s' by (simp add: DrawPlayfield_part001_def Let_def)
  have pf: "bPlayfield st' = pf'" using g by (simp add: same_globals_def)
  have "object_list st' = object_list st" "iScrollX st' = iScrollX st" "iScrollY st' = iScrollY st"
    using g by (simp_all add: same_globals_def)
  then show ?thesis using run l c pf by blast
qed

lemma part001_state_playfield: "length (bPlayfield part001_state) = 180"
  by code_simp

lemma part001_state_row: "currentRow part001_state = 2"
  by code_simp

lemma part001_tile: "flash tileMap_part001 182 = 1"
  by code_simp

lemma part001_state_tile: "bPlayfield part001_state ! 2 = 0"
  by code_simp

text \<open>
  C8, as stated, fails for the DrawPlayfield of the scrolling-map sketch (part_001),
  which starts with \<open>adjustPlayField()\<close>: with \<open>iScrollY = 8\<close> the call rewrites row 0 of
  \<open>bPlayfield\<close> with row 10 of the tile map; the byte at index 2 is 0 before the call and
  1 after it.
\<close>

theorem DrawPlayfield_part001_rewrites_playfield:
  "map_option (hd \<circ> drop 2 \<circ> bPlayfield)
     (DrawPlayfield_part001 (flash ucTiles_part001) (flash tileMap_part001) 0 8 part001_state) =
     Some 1 \<and>
   (hd \<circ> drop 2 \<circ> bPlayfield) part001_state = 0"
proof -
  from DrawPlayfield_part001_Some [OF part001_state_playfield,
         of "flash ucTiles_part001" "flash tileMap_part001" 0 8]
  obtain st' where r: "DrawPlayfield_part001 (flash ucTiles_part001) (flash tileMap_part001) 0 8
                         part001_state = Some st'"
    and l: "length (bPlayfield st') = 180"
    and c: "\<forall>j. bPlayfield st' ! j =
              (if ((2 + 8) * 18) mod 180 \<le> j \<and> j < ((2 + 8) * 18) mod 180 + 18
               then flash tileMap_part001 (((2 + 8) mod 29) * 18 + (j - ((2 + 8) * 18) mod 180))
               else if (2 * 18) mod 180 \<le> j \<and> j < (2 * 18) mod 180 + 18
               then flash tileMap_part001 ((2 mod 29) * 18 + (j - (2 * 18) mod 180))
               else bPlayfield part001_state ! j)"
    unfolding part001_state_row by blast
  have "bPlayfield st' ! 2 = flash tileMap_part001 182" using c [rule_format, of 2] by simp
  then have "hd (drop 2 (bPlayfield st')) = 1"
    using l part001_tile by (simp add: hd_drop_conv_nth)
  moreover have "hd (drop 2 (bPlayfield part001_state)) = 0"
    using part001_state_playfield part001_state_tile by (simp add: hd_drop_conv_nth)
  ultimately show ?thesis using r by simp
qed

text \<open>
  C8, amended. DrawSprites hands back the sprite list it was given. DrawPlayfield of
  oledMainDEMO.cpp leaves \<open>bPlayfield\<close>, the sprite list and the scroll variables as they
  were. DrawPlayfield of part_001 leaves the sprite list and the scroll variables, but
  through adjustPlayField it overwrites two rows of 18 bytes of \<open>bPlayfield\<close> with rows
  of the tile map (playfield rows \<open>(r + 8) mod 10\<close> and \<open>r mod 10\<close> from map rows
  \<open>(r + 8) mod 29\<close> and \<open>r mod 29\<close>, \<open>r\<close> being \<open>currentRow\<close>); only the other bytes of
  \<open>bPlayfield\<close> are as they were.
\<close>

theorem rendering_frame:
  assumes "128 \<le> length pBuf" "unat bCount \<le> length pList"
    and "length (bPlayfield st) = 180" "unat numberOfSprites \<le> length (object_list st)"
    and "unat bScrollY < 160"
    and "length (bPlayfield st2) = 180"
  shows "(\<exists>buf'. DrawSprites ucSprites ucBigSprites y pBuf pList bCount = Some (buf', pList)) \<and>
         (\<exists>st'. DrawPlayfield ucFont ucSprites ucBigSprites bScrollX bScrollY st = Some st' \<and>
            bPlayfield st' = bPlayfield st \<and> object_list st' = object_list st \<and>
            iScrollX st' = iScrollX st \<and> iScrollY st' = iScrollY st) \<and>
         (\<exists>st'. DrawPlayfield_part001 ucTiles tileMap bScrollX2 bScrollY2 st2 = Some st' \<and>
            object_list st' = object_list st2 \<and>
            iScrollX st' = iScrollX st2 \<and> iScrollY st' = iScrollY st2 \<and>
            length (bPlayfield st') = 180 \<and>
            (\<forall>j. bPlayfield st' ! j =
              (if ((currentRow st2 + 8) * 18) mod 180 \<le> j \<and>
                  j < ((currentRow st2 + 8) * 18) mod 180 + 18
               then tileMap (((currentRow st2 + 8) mod 29) * 18 +
                             (j - ((currentRow st2 + 8) * 18) mod 180))
               else if (currentRow st2 * 18) mod 180 \<le> j \<and> j < (currentRow st2 * 18) mod 180 + 18
               then tileMap ((currentRow st2 mod 29) * 18 + (j - (currentRow st2 * 18) mod 180))
               else bPlayfield st2 ! j)))"
proof (intro conjI)
  show "\<exists>buf'. DrawSprites ucSprites ucBigSprites y pBuf pList bCount = Some (buf', pList)"
    using DrawSprites_loop_Some [OF assms(1), of 0 "unat bCount" pList ucSprites ucBigSprites y]
      assms(2)
    by (auto simp add: DrawSprites_def)
  show "\<exists>st'. DrawPlayfield ucFont ucSprites ucBigSprites bScrollX bScrollY st = Some st' \<and>
            bPlayfield st' = bPlayfield st \<and> object_list st' = object_list st \<and>
            iScrollX st' = iScrollX st \<and> iScrollY st' = iScrollY st"
    using DrawPlayfield_Some [OF assms(3,4,5), of ucFont ucSprites ucBigSprites bScrollX]
    by (simp add: same_globals_def)
  show "\<exists>st'. DrawPlayfield_part001 ucTiles tileMap bScrollX2 bScrollY2 st2 = Some st' \<and>
            object_list st' = object_list st2 \<and>
            iScrollX st' = iScrollX st2 \<and> iScrollY st' = iScrollY st2 \<and>
            length (bPlayfield st') = 180 \<and>
            (\<forall>j. bPlayfield st' ! j =
              (if ((currentRow st2 + 8) * 18) mod 180 \<le> j \<and>
                  j < ((currentRow st2 + 8) * 18) mod 180 + 18
               then tileMap (((currentRow st2 + 8) mod 29) * 18 +
                             (j - ((currentRow st2 + 8) * 18) mod 180))
               else if (currentRow st2 * 18) mod 180 \<le> j \<and> j < (currentRow st2 * 18) mod 180 + 18
               then tileMap ((currentRow st2 mod 29) * 18 + (j - (currentRow st2 * 18) mod 180))
               else bPlayfield st2 ! j))"
    by (rule DrawPlayfield_part001_Some [OF assms(6)])
qed

theorem rendering_frame_witness:
  "(\<exists>buf'. DrawSprites (flash ucSprites_demo) (flash ucBigSprites_demo) 32 (replicate 128 0)
             demo_objects 19 = Some (buf', demo_objects)) \<and>
   (\<exists>st'. DrawPlayfield (flash ucFont_demo) (flash ucSprites_demo) (flash ucBigSprites_demo) 3 5
             demo_state = Some st' \<and>
           bPlayfield st' = bPlayfield demo_state \<and> object_list st' = object_list demo_state) \<and>
   (\<exists>st'. DrawPlayfield_part001 (flash ucTiles_part001) (flash tileMap_part001) 0 8 part001_state =
             Some st' \<and>
           object_list st' = object_list part001_state \<and> iScrollY st' = iScrollY part001_state)"
proof -
  have h1: "128 \<le> length (replicate 128 (0 :: byte))" by simp
  have h2: "unat (19 :: byte) \<le> length demo_objects" by (simp add: demo_objects_def)
  have h5: "unat (5 :: byte) < 160" by simp
  from rendering_frame [OF h1 h2 demo_state_playfield demo_state_sprites h5 part001_state_playfield,
         of "flash ucSprites_demo" "flash ucBigSprites_demo" 32 "flash ucFont_demo" 3
            "flash ucTiles_part001" "flash tileMap_part001" 0 8]
  show ?thesis by blast
qed

end
